theory Spec2Isabelle
  imports Complex_Main "HOL-Library.Word" "HOL-Library.Log_Nat"
begin

unbundle bit_operations_syntax

section \<open>The CALIPSO L2 VFM reader (vfm\_reader.py)\<close>

text \<open>
  A shallow embedding of the class \<open>VfmReader\<close>. The reader holds one pyhdf \<open>SD\<close>
  handle and exposes five read-only properties: \<open>lon\<close>, \<open>lat\<close>, \<open>time\<close>,
  \<open>height\<close> and \<open>fcf\<close>. numpy arrays are lists of rows together with their column
  count, float64 values are the real numbers they denote and every float64 operation
  rounds its exact result to the nearest double, the uint16 flag words are \<open>16 word\<close>,
  and every exception of the source is a value of \<open>error\<close>.
\<close>

subsection \<open>float64 arithmetic\<close>

text \<open>
  IEEE 754 binary64, round to nearest, ties to even. A double is a multiple of its unit in
  the last place \<open>2 ^ k\<close>, where \<open>k\<close> is 52 below the binary exponent of the value and
  never below -1074 (the subnormal range). \<open>round_double\<close> gives the double nearest to a
  real number; overflow to infinity and NaN are not represented (no value that \<open>time\<close>
  or \<open>height\<close> computes from finite input comes near \<open>2 ^ 1024\<close>).
\<close>

definition round_half_even :: "real \<Rightarrow> int" where
  "round_half_even y =
     (let f = \<lfloor>y\<rfloor>; r = y - of_int f
      in if r < 1 / 2 then f else if 1 / 2 < r then f + 1 else if even f then f else f + 1)"

definition ulp_exponent :: "real \<Rightarrow> int" where
  "ulp_exponent x = max (bitlen \<lfloor>\<bar>x\<bar> * 2 ^ 1074\<rfloor> - 1075) (- 1022) - 52"

definition round_double :: "real \<Rightarrow> real" where
  "round_double x =
     of_int (round_half_even (x / 2 powi ulp_exponent x)) * 2 powi ulp_exponent x"

text \<open>A decimal literal of the source is the double nearest to it.\<close>

definition double :: "real \<Rightarrow> real" where
  "double x = round_double x"

definition fadd :: "real \<Rightarrow> real \<Rightarrow> real" where
  "fadd x y = round_double (x + y)"

definition fsub :: "real \<Rightarrow> real \<Rightarrow> real" where
  "fsub x y = round_double (x - y)"

definition fmul :: "real \<Rightarrow> real \<Rightarrow> real" where
  "fmul x y = round_double (x * y)"

subsection \<open>Errors\<close>

text \<open>
  The source defines no exception of its own; it lets the libraries raise.
  \<open>OpenError\<close> stands for pyhdf's HDF4Error raised by \<open>SD(path, SDC.READ)\<close>,
  \<open>ReadError\<close> for the HDF4Error of \<open>sd.select(name)\<close> (dataset absent, handle
  already ended), the ValueError of reading a dataset without records and numpy's
  IndexError of \<open>[:, 0]\<close> on an array without columns,
  \<open>DecodeError\<close> for the ValueError of \<open>pd.to_datetime\<close>.
\<close>

datatype error = OpenError | ReadError | DecodeError

subsection \<open>Two-dimensional arrays\<close>

text \<open>
  A 2-D numpy array: its rows, and the number of columns (kept apart so that an array
  with no rows still has a shape). numpy arrays are rectangular: \<open>wf_array\<close>.
\<close>

datatype 'a ndarray = NDArray (ncols: nat) (rows: "'a list list")

definition nrows :: "'a ndarray \<Rightarrow> nat" where
  "nrows a = length (rows a)"

definition wf_array :: "'a ndarray \<Rightarrow> bool" where
  "wf_array a \<longleftrightarrow> list_all (\<lambda>r. length r = ncols a) (rows a)"

text \<open>\<open>a[i, j]\<close> for indices in range.\<close>

definition cell :: "'a ndarray \<Rightarrow> nat \<Rightarrow> nat \<Rightarrow> 'a" where
  "cell a i j = rows a ! i ! j"

text \<open>
  \<open>a[:, lo:hi]\<close> for constants \<open>0 \<le> lo \<le> hi\<close>. A numpy slice never raises: both
  bounds are clipped to the number of columns.
\<close>

definition slice_cols :: "nat \<Rightarrow> nat \<Rightarrow> 'a ndarray \<Rightarrow> 'a ndarray" where
  "slice_cols lo hi a =
     NDArray (min hi (ncols a) - min lo (ncols a))
             (map (\<lambda>r. take (hi - lo) (drop lo r)) (rows a))"

text \<open>
  \<open>np.hstack\<close>: the arrays are joined row by row. (On an empty list, and on arrays whose
  row counts differ, numpy raises; \<open>fcf\<close> stacks three slices of one array.)
\<close>

definition hcat :: "'a ndarray \<Rightarrow> 'a ndarray \<Rightarrow> 'a ndarray" where
  "hcat a b = NDArray (ncols a + ncols b) (map2 (@) (rows a) (rows b))"

fun hstack :: "'a ndarray list \<Rightarrow> 'a ndarray" where
  "hstack [] = NDArray 0 []"
| "hstack [a] = a"
| "hstack (a # b # bs) = hcat a (hstack (b # bs))"

text \<open>\<open>a[:, ::-1]\<close>: every row reversed.\<close>

definition flip_cols :: "'a ndarray \<Rightarrow> 'a ndarray" where
  "flip_cols a = NDArray (ncols a) (map rev (rows a))"

text \<open>\<open>a[:, 0]\<close>: the first column; IndexError when the array has no column.\<close>

definition col0 :: "'a ndarray \<Rightarrow> error + 'a list" where
  "col0 a = (if ncols a = 0 then Inl ReadError else Inr (map (\<lambda>r. r ! 0) (rows a)))"

subsection \<open>The file, the handle and the reader\<close>

text \<open>
  The four datasets the reader selects by name; \<open>None\<close> is a dataset the file lacks.
\<close>

record hdf_file =
  Longitude :: "real ndarray option"
  Latitude :: "real ndarray option"
  Profile_UTC_Time :: "real ndarray option"
  Feature_Classification_Flags :: "16 word ndarray option"

text \<open>
  The pyhdf handle \<open>SD\<close>: the file it reads and the number of calls of \<open>end()\<close> so far.
\<close>

record SD =
  contents :: hdf_file
  end_calls :: nat

record VfmReader =
  sd :: SD

text \<open>
  \<open>sd.select(name)[...]\<close>: HDF4Error when the handle was ended or the dataset is absent,
  and ValueError (SDreaddata failure) when the dataset has no record to read.
\<close>

definition select :: "SD \<Rightarrow> (hdf_file \<Rightarrow> 'a ndarray option) \<Rightarrow> error + 'a ndarray" where
  "select h name =
     (if end_calls h > 0 then Inl ReadError
      else case name (contents h) of
             None \<Rightarrow> Inl ReadError
           | Some a \<Rightarrow> if nrows a = 0 then Inl ReadError else Inr a)"

text \<open>\<open>__init__\<close>: \<open>self.sd = SD(str(filepath), SDC.READ)\<close>, over a file system.\<close>

definition init :: "(string \<Rightarrow> hdf_file option) \<Rightarrow> string \<Rightarrow> error + VfmReader" where
  "init fs filepath =
     (case fs filepath of
        None \<Rightarrow> Inl OpenError
      | Some f \<Rightarrow> Inr \<lparr>sd = \<lparr>contents = f, end_calls = 0\<rparr>\<rparr>)"

text \<open>
  \<open>close\<close>: \<open>self.sd.end()\<close>. The handle counts the calls; what pyhdf does on a second
  \<open>end()\<close> of the same handle is not modelled, and no property below closes twice.
\<close>

definition close :: "VfmReader \<Rightarrow> VfmReader" where
  "close r = r\<lparr>sd := (sd r)\<lparr>end_calls := end_calls (sd r) + 1\<rparr>\<rparr>"

text \<open>\<open>__enter__\<close> returns \<open>self\<close>; \<open>__exit__\<close> calls \<open>close\<close> (and returns \<open>None\<close>).\<close>

definition enter :: "VfmReader \<Rightarrow> VfmReader" where
  "enter r = r"

definition exit :: "VfmReader \<Rightarrow> VfmReader" where
  "exit r = close r"

subsection \<open>lon and lat\<close>

definition lon :: "VfmReader \<Rightarrow> error + real list" where
  "lon r = (case select (sd r) Longitude of Inl e \<Rightarrow> Inl e | Inr a \<Rightarrow> col0 a)"

definition lat :: "VfmReader \<Rightarrow> error + real list" where
  "lat r = (case select (sd r) Latitude of Inl e \<Rightarrow> Inl e | Inr a \<Rightarrow> col0 a)"

subsection \<open>time\<close>

text \<open>\<open>.astype(int)\<close> on a float: truncation towards zero.\<close>

definition astype_int :: "real \<Rightarrow> int" where
  "astype_int x = (if 0 \<le> x then \<lfloor>x\<rfloor> else \<lceil>x\<rceil>)"

text \<open>\<open>.astype(str)\<close> on an integer: decimal digits, a minus sign when negative.\<close>

definition digit_char :: "nat \<Rightarrow> char" where
  "digit_char d = ''0123456789'' ! d"

fun str_nat :: "nat \<Rightarrow> string" where
  "str_nat n = (if n < 10 then [digit_char n] else str_nat (n div 10) @ [digit_char (n mod 10)])"

declare str_nat.simps [simp del]

definition astype_str :: "int \<Rightarrow> string" where
  "astype_str n = (if n < 0 then CHR ''-'' # str_nat (nat (- n)) else str_nat (nat n))"

text \<open>
  \<open>pd.to_datetime(s, format='%Y%m%d')\<close>, pandas being outside the repository, on the
  strings that \<open>time\<close> makes of values of the encoding \<open>yymmdd.ffffffff\<close>
  (\<open>0 \<le> v < 10^6\<close>): these have eight digits, of which four are the year, two the
  month and two the day, and the conversion raises unless they name a day of the Gregorian
  calendar. What pandas makes of shorter, longer or signed strings, and of years that
  its timestamps cannot hold, is not modelled: the properties of \<open>time\<close> below are
  stated for values of the encoding only.
\<close>

datatype date = Date (year: nat) (month: nat) (day: nat)

definition is_digit :: "char \<Rightarrow> bool" where
  "is_digit c \<longleftrightarrow> c \<in> set ''0123456789''"

definition digit_val :: "char \<Rightarrow> nat" where
  "digit_val c = of_char c - 48"

definition int_of_digits :: "string \<Rightarrow> nat" where
  "int_of_digits s = foldl (\<lambda>a c. 10 * a + digit_val c) 0 s"

definition leap_year :: "nat \<Rightarrow> bool" where
  "leap_year y \<longleftrightarrow> y mod 4 = 0 \<and> (y mod 100 \<noteq> 0 \<or> y mod 400 = 0)"

definition days_in_month :: "nat \<Rightarrow> nat \<Rightarrow> nat" where
  "days_in_month y m =
     (if m = 2 then (if leap_year y then 29 else 28)
      else if m = 4 \<or> m = 6 \<or> m = 9 \<or> m = 11 then 30 else 31)"

definition valid_date :: "nat \<Rightarrow> nat \<Rightarrow> nat \<Rightarrow> bool" where
  "valid_date y m d \<longleftrightarrow> 1 \<le> m \<and> m \<le> 12 \<and> 1 \<le> d \<and> d \<le> days_in_month y m"

definition to_datetime :: "string \<Rightarrow> error + date" where
  "to_datetime s =
     (if length s = 8 \<and> list_all is_digit s then
        (let y = int_of_digits (take 4 s);
             m = int_of_digits (take 2 (drop 4 s));
             d = int_of_digits (drop 6 s)
         in if valid_date y m d then Inr (Date y m d) else Inl DecodeError)
      else Inl DecodeError)"

text \<open>The whole conversion fails when one element fails (\<open>errors='raise'\<close>).\<close>

fun sequence_sum :: "(error + 'a) list \<Rightarrow> error + 'a list" where
  "sequence_sum [] = Inr []"
| "sequence_sum (x # xs) =
     (case x of
        Inl e \<Rightarrow> Inl e
      | Inr v \<Rightarrow> (case sequence_sum xs of Inl e \<Rightarrow> Inl e | Inr vs \<Rightarrow> Inr (v # vs)))"

text \<open>
  \<open>x % 1\<close> on a float, as numpy computes it: the exact remainder of the truncated
  division, to which the divisor 1 is added (and the sum rounded) when it is negative.
\<close>

definition mod1 :: "real \<Rightarrow> real" where
  "mod1 x = (let m = x - of_int (astype_int x) in if m < 0 then fadd m 1 else m)"

text \<open>
  A timestamp: a date plus a duration in days (\<open>pd.to_timedelta(ff, unit='D')\<close>), the
  duration being kept as the fraction of a day that \<open>time\<close> passes to pandas. In
  \<open>time\<close> the constant 2e7 is a double and \<open>yymmddff + 2e7\<close> is a float64 sum.
\<close>

datatype timestamp = Timestamp (date_of: date) (day_fraction: real)

definition time :: "VfmReader \<Rightarrow> error + timestamp list" where
  "time r =
     (case select (sd r) Profile_UTC_Time of
        Inl e \<Rightarrow> Inl e
      | Inr a \<Rightarrow>
          (case col0 a of
             Inl e \<Rightarrow> Inl e
           | Inr yymmddff \<Rightarrow>
               (case sequence_sum
                       (map (\<lambda>v. to_datetime (astype_str (astype_int (fadd v 20000000)))) yymmddff) of
                  Inl e \<Rightarrow> Inl e
                | Inr yymmdd \<Rightarrow>
                    (let ff = map mod1 yymmddff
                     in Inr (map2 Timestamp yymmdd ff)))))"

subsection \<open>height\<close>

definition arange :: "nat \<Rightarrow> real list" where
  "arange n = map real [0..<n]"

definition height :: "VfmReader \<Rightarrow> real list" where
  "height r =
     (let height1 = map (\<lambda>x. fsub (fmul (fadd x (double 0.5)) (double 0.03)) (double 0.5))
                      (arange 290);
          height2 = map (\<lambda>x. fadd (fmul (fadd x (double 0.5)) (double 0.06)) (double 8.2))
                      (arange 200);
          height3 = map (\<lambda>x. fadd (fmul (fadd x (double 0.5)) (double 0.18)) (double 20.2))
                      (arange 55)
      in concat [height1, height2, height3])"

subsection \<open>fcf\<close>

definition shifts :: "nat list" where
  "shifts = [0, 3, 5, 7, 9, 12, 13]"

definition bits :: "int list" where
  "bits = [7, 3, 3, 3, 7, 1, 7]"

text \<open>
  \<open>w >> shifts & bits\<close> for one flag word, broadcast over the seven fields. \<open>>>\<close> binds
  tighter than \<open>&\<close>; the uint16 word is promoted to a signed 64-bit integer, which holds
  every 16-bit value.
\<close>

definition decode_word :: "16 word \<Rightarrow> int list" where
  "decode_word w = map2 (\<lambda>s b. drop_bit s (uint w) AND b) shifts bits"

definition decode :: "16 word ndarray \<Rightarrow> int list ndarray" where
  "decode a = NDArray (ncols a) (map (map decode_word) (rows a))"

text \<open>The bands of one array: the three slices, stacked and flipped.\<close>

definition bands :: "'a ndarray \<Rightarrow> 'a ndarray" where
  "bands a =
     (let fcf1 = slice_cols 1165 1455 a;
          fcf2 = slice_cols 165 365 a;
          fcf3 = slice_cols 0 55 a
      in flip_cols (hstack [fcf3, fcf2, fcf1]))"

definition fcf :: "VfmReader \<Rightarrow> error + int list ndarray" where
  "fcf r =
     (case select (sd r) Feature_Classification_Flags of
        Inl e \<Rightarrow> Inl e
      | Inr a \<Rightarrow> Inr (decode (bands a)))"

text \<open>
  A 3-D array of shape \<open>(n, m, k)\<close>, as an array of cells that are lists: \<open>n\<close> rows,
  each of \<open>m\<close> cells, each cell of \<open>k\<close> values.
\<close>

definition has_shape :: "'a list ndarray \<Rightarrow> nat \<Rightarrow> nat \<Rightarrow> nat \<Rightarrow> bool" where
  "has_shape a n m k \<longleftrightarrow>
     length (rows a) = n \<and> ncols a = m \<and>
     list_all (\<lambda>row. length row = m \<and> list_all (\<lambda>c. length c = k) row) (rows a)"

subsection \<open>The specification's bit-field table\<close>

text \<open>
  The table of the product documentation: field \<open>k\<close> has a bit shift and a bit width.
  \<open>spec_decode_word\<close> is the decoding in the specification's words, and \<open>encode\<close>
  packs seven field values into one word by summing the shifted values.
\<close>

definition spec_fields :: "(nat \<times> nat) list" where
  "spec_fields = [(0, 3), (3, 2), (5, 2), (7, 2), (9, 3), (12, 1), (13, 3)]"

definition spec_decode_word :: "16 word \<Rightarrow> int list" where
  "spec_decode_word w =
     map (\<lambda>(shift, bitwidth). drop_bit shift (uint w) AND (2 ^ bitwidth - 1)) spec_fields"

definition encode :: "int list \<Rightarrow> 16 word" where
  "encode vs =
     word_of_int (sum_list (map2 (\<lambda>v (shift, bitwidth). push_bit shift v) vs spec_fields))"

text \<open>The columns \<open>[lo:hi)\<close> of one row, read by index.\<close>

definition column_range :: "nat \<Rightarrow> nat \<Rightarrow> 'a list \<Rightarrow> 'a list" where
  "column_range lo hi row = map (\<lambda>k. row ! k) [lo..<hi]"

subsection \<open>Attribute access and the with statement\<close>

text \<open>
  Reading one of the five properties of a reader: \<open>r.lon\<close>, \<open>r.lat\<close>, \<open>r.time\<close>,
  \<open>r.height\<close>, \<open>r.fcf\<close>. The getters assign nothing, so the reader is unchanged.
\<close>

datatype property = Lon | Lat | Time | Height | Fcf

datatype pvalue = Floats "real list" | Timestamps "timestamp list" | Flags "int list ndarray"

fun getattr :: "VfmReader \<Rightarrow> property \<Rightarrow> error + pvalue" where
  "getattr r Lon = (case lon r of Inl e \<Rightarrow> Inl e | Inr v \<Rightarrow> Inr (Floats v))"
| "getattr r Lat = (case lat r of Inl e \<Rightarrow> Inl e | Inr v \<Rightarrow> Inr (Floats v))"
| "getattr r Time = (case time r of Inl e \<Rightarrow> Inl e | Inr v \<Rightarrow> Inr (Timestamps v))"
| "getattr r Height = Inr (Floats (height r))"
| "getattr r Fcf = (case fcf r of Inl e \<Rightarrow> Inl e | Inr v \<Rightarrow> Inr (Flags v))"

text \<open>
  A block that reads properties one after the other; the first exception leaves the block.
  A block returns its outcome and the reader as it leaves it.
\<close>

fun accesses :: "property list \<Rightarrow> VfmReader \<Rightarrow> (error + pvalue list) \<times> VfmReader" where
  "accesses [] r = (Inr [], r)"
| "accesses (p # ps) r =
     (case getattr r p of
        Inl e \<Rightarrow> (Inl e, r)
      | Inr v \<Rightarrow>
          (case accesses ps r of
             (Inl e, r') \<Rightarrow> (Inl e, r')
           | (Inr vs, r') \<Rightarrow> (Inr (v # vs), r')))"

text \<open>
  \<open>with VfmReader(filepath) as r: body\<close>, by the rules of Python's with statement: the
  constructor runs first and its exception leaves the statement before anything is entered;
  otherwise \<open>__enter__\<close> gives \<open>r\<close>, the body runs, and \<open>__exit__\<close> is called whether the
  body returned or raised. \<open>__exit__\<close> returns \<open>None\<close>, so an exception of the body is
  raised again after it. The result is the outcome and the reader after the statement.
\<close>

definition with_reader ::
  "(string \<Rightarrow> hdf_file option) \<Rightarrow> string \<Rightarrow> (VfmReader \<Rightarrow> (error + 'a) \<times> VfmReader)
     \<Rightarrow> (error + 'a) \<times> VfmReader option" where
  "with_reader fs filepath body =
     (case init fs filepath of
        Inl e \<Rightarrow> (Inl e, None)
      | Inr r0 \<Rightarrow>
          (let r = enter r0;
               (outcome, r') = body r
           in (outcome, Some (exit r'))))"

subsection \<open>The specification's time decoding\<close>

text \<open>
  The decoding of one value \<open>v\<close> in the specification's words: \<open>yymmdd_int = floor(v + 2e7)\<close>,
  the sum being the float64 sum, is read as the calendar date YYYYMMDD (an 8-digit number
  naming a day of the calendar), the fractional day is \<open>v mod 1.0\<close>, and the timestamp is
  the date plus that duration.
\<close>

definition spec_resolves :: "real \<Rightarrow> bool" where
  "spec_resolves v =
     (let yymmdd_int = \<lfloor>fadd v 20000000\<rfloor>
      in 10000000 \<le> yymmdd_int \<and> yymmdd_int \<le> 99999999 \<and>
         valid_date (nat (yymmdd_int div 10000)) (nat (yymmdd_int div 100 mod 100))
           (nat (yymmdd_int mod 100)))"

text \<open>A value of the encoding \<open>yymmdd.ffffffff\<close>.\<close>

definition encoded :: "real \<Rightarrow> bool" where
  "encoded v \<longleftrightarrow> 0 \<le> v \<and> v < 1000000"

definition spec_timestamp :: "real \<Rightarrow> timestamp" where
  "spec_timestamp v =
     (let yymmdd_int = \<lfloor>fadd v 20000000\<rfloor>;
          fractional_day = frac v
      in Timestamp (Date (nat (yymmdd_int div 10000)) (nat (yymmdd_int div 100 mod 100))
                      (nat (yymmdd_int mod 100))) fractional_day)"

subsection \<open>The specification's altitude grid\<close>

text \<open>The closed forms, in exact arithmetic.\<close>

definition spec_height :: "real list" where
  "spec_height =
     map (\<lambda>i. (real i + 0.5) * 0.03 - 0.5) [0..<290] @
     map (\<lambda>j. (real j + 0.5) * 0.06 + 8.2) [0..<200] @
     map (\<lambda>k. (real k + 0.5) * 0.18 + 20.2) [0..<55]"

subsection \<open>Example inputs\<close>

text \<open>A reader as \<open>init\<close> returns it, on a given file.\<close>

definition opened :: "hdf_file \<Rightarrow> VfmReader" where
  "opened f = \<lparr>sd = \<lparr>contents = f, end_calls = 0\<rparr>\<rparr>"

definition flags_only :: "16 word ndarray \<Rightarrow> hdf_file" where
  "flags_only a = \<lparr>Longitude = None, Latitude = None, Profile_UTC_Time = None,
     Feature_Classification_Flags = Some a\<rparr>"

text \<open>One footprint with a single column; one footprint whose 5515 columns hold their index.\<close>

definition narrow_flags :: "16 word ndarray" where
  "narrow_flags = NDArray 1 [[0xFFFF]]"

definition wide_flags :: "16 word ndarray" where
  "wide_flags = NDArray 5515 [map of_nat [0..<5515]]"

definition time_file :: "real ndarray \<Rightarrow> hdf_file" where
  "time_file a = \<lparr>Longitude = None, Latitude = None, Profile_UTC_Time = Some a,
     Feature_Classification_Flags = None\<rparr>"

text \<open>A file with two footprints and every dataset in its expected shape.\<close>

definition example_file :: hdf_file where
  "example_file = \<lparr>
     Longitude = Some (NDArray 3 [[10.5, 10.4, 10.6], [11.5, 11.4, 11.6]]),
     Latitude = Some (NDArray 1 [[-3], [-2.5]]),
     Profile_UTC_Time = Some (NDArray 1 [[210115.25], [210115.5]]),
     Feature_Classification_Flags = Some (NDArray 5515 [replicate 5515 0, map of_nat [0..<5515]])\<rparr>"

text \<open>A flags dataset of 5515 columns without a record.\<close>

definition empty_flags :: "16 word ndarray" where
  "empty_flags = NDArray 5515 []"

definition example_fs :: "string \<Rightarrow> hdf_file option" where
  "example_fs = (\<lambda>p. None)(''vfm.hdf'' := Some (flags_only narrow_flags))"




section \<open>Properties\<close>

subsection \<open>Rounding to a double\<close>

lemma round_half_even_error: "\<bar>of_int (round_half_even y) - y\<bar> \<le> 1 / 2"
proof -
  have "of_int \<lfloor>y\<rfloor> \<le> y" "y < of_int \<lfloor>y\<rfloor> + 1" by linarith+
  then show ?thesis
    by (auto simp add: round_half_even_def Let_def)
qed



lemma ulp_exponent_eqI:
  assumes "- 1022 \<le> e" "2 powi e \<le> \<bar>x\<bar>" "\<bar>x\<bar> < 2 powi (e + 1)"
  shows "ulp_exponent x = e - 52"
proof -
  define W :: real where "W = 2 ^ 1074"
  define n where "n = \<lfloor>\<bar>x\<bar> * W\<rfloor>"
  have W: "W = 2 powi 1074" "0 < W"
    by (simp_all add: W_def)
  have e1: "2 powi e * W = 2 ^ nat (e + 1074)"
  proof -
    have "2 powi e * W = (2::real) powi (e + 1074)"
      unfolding W(1) using power_int_add[of "2::real" e 1074] by simp
    also have "\<dots> = 2 ^ nat (e + 1074)"
      using assms(1) by (simp add: power_int_def)
    finally show ?thesis .
  qed
  have e2: "2 powi (e + 1) * W = 2 ^ nat (e + 1075)"
  proof -
    have "2 powi (e + 1) * W = (2::real) powi (e + 1 + 1074)"
      unfolding W(1) using power_int_add[of "2::real" "e + 1" 1074] by simp
    also have "\<dots> = 2 ^ nat (e + 1075)"
      using assms(1) by (simp add: power_int_def)
    finally show ?thesis .
  qed
  have "(2::real) ^ nat (e + 1074) \<le> \<bar>x\<bar> * W"
    using assms(2) W(2) unfolding e1[symmetric] by (simp add: mult_right_mono)
  then have "of_int (2 ^ nat (e + 1074)) \<le> \<bar>x\<bar> * W" by simp
  then have lo: "2 ^ nat (e + 1074) \<le> n"
    unfolding n_def by (simp only: le_floor_iff)
  have "\<bar>x\<bar> * W < (2::real) ^ nat (e + 1075)"
    using assms(3) W(2) unfolding e2[symmetric] by (simp add: mult_strict_right_mono)
  then have "\<bar>x\<bar> * W < of_int (2 ^ nat (e + 1075))" by simp
  then have hi: "n < 2 ^ nat (e + 1075)"
    unfolding n_def by (simp only: floor_less_iff)
  have "bitlen n \<le> e + 1075"
    using hi assms(1) by (simp add: bitlen_le_iff_power)
  moreover have "e + 1075 \<le> bitlen n"
  proof -
    have "nat (e + 1075) - 1 = nat (e + 1074)" using assms(1) by simp
    then show ?thesis
      using lo by (simp add: bitlen_ge_iff_power)
  qed
  ultimately have "bitlen n = e + 1075" by simp
  then show ?thesis
    using assms(1) by (simp add: ulp_exponent_def n_def W_def)
qed

lemma round_double_eval:
  assumes "- 1022 \<le> e" "2 powi e \<le> \<bar>x\<bar>" "\<bar>x\<bar> < 2 powi (e + 1)"
  shows "round_double x = of_int (round_half_even (x / 2 powi (e - 52))) * 2 powi (e - 52)"
  by (simp add: round_double_def ulp_exponent_eqI[OF assms])

lemma round_double_ulp:
  "\<bar>round_double x - x\<bar> \<le> 2 powi ulp_exponent x / 2"
proof -
  define u :: real where "u = 2 powi ulp_exponent x"
  have u: "0 < u" by (simp add: u_def)
  have "round_double x - x = (of_int (round_half_even (x / u)) - x / u) * u"
    using u by (simp add: round_double_def u_def[symmetric] field_simps)
  then have "\<bar>round_double x - x\<bar> = \<bar>of_int (round_half_even (x / u)) - x / u\<bar> * u"
    using u by (simp add: abs_mult)
  also have "\<dots> \<le> 1 / 2 * u"
    using round_half_even_error[of "x / u"] u by (intro mult_right_mono) simp_all
  finally show ?thesis by (simp add: u_def)
qed

lemma round_double_error: "\<bar>round_double x - x\<bar> \<le> (\<bar>x\<bar> + 1) / 2 ^ 53"
proof -
  define n where "n = \<lfloor>\<bar>x\<bar> * 2 ^ 1074\<rfloor>"
  define b where "b = bitlen n"
  have k: "ulp_exponent x = max (b - 1075) (- 1022) - 52"
    by (simp add: ulp_exponent_def n_def b_def)
  have "2 powi ulp_exponent x / 2 \<le> (\<bar>x\<bar> + 1) / 2 ^ 53"
  proof (cases "- 1022 \<le> b - 1075")
    case True
    then have n0: "0 < n" using bitlen_eq_zero_iff[of n] by (auto simp add: b_def)
    have b1: "1 \<le> b" using True by simp
    have "2 ^ nat (b - 1) \<le> n"
      using bitlen_bounds[OF n0] by (simp add: b_def)
    then have "(2::real) ^ nat (b - 1) \<le> of_int n"
      by (metis of_int_le_iff of_int_numeral of_int_power)
    also have "\<dots> \<le> \<bar>x\<bar> * 2 ^ 1074" by (simp add: n_def)
    finally have "(2::real) ^ nat (b - 1) / 2 ^ 1074 \<le> \<bar>x\<bar>"
      by (simp add: field_simps)
    moreover have "(2::real) powi (b - 1075) = 2 ^ nat (b - 1) / 2 ^ 1074"
      using b1 power_int_diff[of "2::real" "b - 1" 1074] by (simp add: power_int_def)
    ultimately have x: "2 powi (b - 1075) \<le> \<bar>x\<bar>" by simp
    have "(2::real) powi ulp_exponent x / 2 = 2 powi (b - 1075) / 2 ^ 53"
      using True power_int_diff[of "2::real" "b - 1075" 52] by (simp add: k max_def)
    also have "\<dots> \<le> \<bar>x\<bar> / 2 ^ 53" using x by (simp add: divide_right_mono)
    also have "\<dots> \<le> (\<bar>x\<bar> + 1) / 2 ^ 53" by (simp add: divide_right_mono)
    finally show ?thesis .
  next
    case False
    then have "ulp_exponent x = - 1074" by (simp add: k max_def)
    then have "(2::real) powi ulp_exponent x / 2 = 1 / 2 ^ 1075"
      by (simp add: power_int_minus field_simps)
    also have "\<dots> \<le> 1 / 2 ^ 53"
      by (intro divide_left_mono power_increasing) simp_all
    also have "\<dots> \<le> (\<bar>x\<bar> + 1) / 2 ^ 53" by (simp add: divide_right_mono)
    finally show ?thesis .
  qed
  then show ?thesis
    using round_double_ulp[of x] by linarith
qed

subsection \<open>Decoding one word\<close>

lemma and_7_eq_mod: "(x::int) AND 7 = x mod 8"
  using take_bit_eq_mask[of 3 x] by (simp add: take_bit_eq_mod mask_eq_exp_minus_1)

lemma and_3_eq_mod: "(x::int) AND 3 = x mod 4"
  using take_bit_eq_mask[of 2 x] by (simp add: take_bit_eq_mod mask_eq_exp_minus_1)

lemma and_1_eq_mod: "(x::int) AND 1 = x mod 2"
  using take_bit_eq_mask[of 1 x] by (simp add: take_bit_eq_mod mask_eq_exp_minus_1)

lemma decode_word_eq:
  "decode_word w = (let x = uint w in [x mod 8, x div 8 mod 4, x div 32 mod 4, x div 128 mod 4, x div 512 mod 8, x div 4096 mod 2, x div 8192 mod 8])"
  by (simp add: decode_word_def shifts_def bits_def and_7_eq_mod and_3_eq_mod and_1_eq_mod drop_bit_eq_div Let_def)

lemma divmod_step: "0 \<le> a \<Longrightarrow> a < m \<Longrightarrow> (a + m * b) div m = (b::int) \<and> (a + m * b) mod m = a"
  by (simp add: div_pos_pos_trivial)

lemma mod2_cases: "(y::int) mod 2 = 0 \<or> y mod 2 = 1"
  by presburger

text \<open>
  Claim C7. For any raw 16-bit word, the seven decoded fields are bounded by the maxima of
  the table (7, 3, 3, 3, 7, 1, 7), and field 5 (shift 12, width 1) is 0 or 1.
\<close>

theorem decoded_fields_bounded:
  "list_all2 (\<lambda>v m. 0 \<le> v \<and> v \<le> m) (decode_word w) [7, 3, 3, 3, 7, 1, 7]
   \<and> (decode_word w ! 5 = 0 \<or> decode_word w ! 5 = 1)"
proof -
  have b8: "\<And>y::int. 0 \<le> y mod 8 \<and> y mod 8 \<le> 7"
   and b4: "\<And>y::int. 0 \<le> y mod 4 \<and> y mod 4 \<le> 3"
   and b2: "\<And>y::int. 0 \<le> y mod 2 \<and> y mod 2 \<le> 1"
    using pos_mod_bound[of 8] pos_mod_bound[of 4] pos_mod_bound[of 2] by (simp_all add: zle_diff1_eq[symmetric] del: pos_mod_bound)
  show ?thesis
    using b8 b4 b2 mod2_cases by (simp add: decode_word_eq Let_def)
qed
lemma decode_encode_fields:
  assumes "0 \<le> v0" "v0 < 8" "0 \<le> v1" "v1 < 4" "0 \<le> v2" "v2 < 4" "0 \<le> v3" "v3 < 4"
     "0 \<le> v4" "v4 < 8" "0 \<le> v5" "v5 < 2" "0 \<le> v6" "v6 < 8"
  shows "decode_word (encode [v0, v1, v2, v3, v4, v5, v6]) = [v0, v1, v2, v3, v4, v5, v6]"
proof -
  define y5 where "y5 = v5 + 2 * v6"
  define y4 where "y4 = v4 + 8 * y5"
  define y3 where "y3 = v3 + 4 * y4"
  define y2 where "y2 = v2 + 4 * y3"
  define y1 where "y1 = v1 + 4 * y2"
  define x where "x = v0 + 8 * y1"
  have x0: "0 \<le> x"
    using assms by (simp add: x_def y1_def y2_def y3_def y4_def y5_def algebra_simps)
  have x1: "x < 65536"
    using assms by (simp add: x_def y1_def y2_def y3_def y4_def y5_def algebra_simps)
  have e: "encode [v0, v1, v2, v3, v4, v5, v6] = word_of_int x"
    by (simp add: encode_def spec_fields_def x_def y1_def y2_def y3_def y4_def y5_def push_bit_eq_mult)
  have u: "uint (word_of_int x :: 16 word) = x"
    using x0 x1 by (simp add: uint_word_of_int take_bit_eq_mod)
  have d0: "x div 8 = y1" "x mod 8 = v0"
    using divmod_step[of v0 8 y1] assms by (simp_all add: x_def)
  have d1: "y1 div 4 = y2" "y1 mod 4 = v1"
    using divmod_step[of v1 4 y2] assms by (simp_all add: y1_def)
  have d2: "y2 div 4 = y3" "y2 mod 4 = v2"
    using divmod_step[of v2 4 y3] assms by (simp_all add: y2_def)
  have d3: "y3 div 4 = y4" "y3 mod 4 = v3"
    using divmod_step[of v3 4 y4] assms by (simp_all add: y3_def)
  have d4: "y4 div 8 = y5" "y4 mod 8 = v4"
    using divmod_step[of v4 8 y5] assms by (simp_all add: y4_def)
  have d5: "y5 div 2 = v6" "y5 mod 2 = v5"
    using divmod_step[of v5 2 v6] assms by (simp_all add: y5_def)
  have d6: "v6 mod 8 = v6" using assms by simp
  have s32: "x div 32 = y2" using zdiv_zmult2_eq[of 4 x 8] d0 d1 by simp
  have s128: "x div 128 = y3" using zdiv_zmult2_eq[of 4 x 32] s32 d2 by simp
  have s512: "x div 512 = y4" using zdiv_zmult2_eq[of 4 x 128] s128 d3 by simp
  have s4096: "x div 4096 = y5" using zdiv_zmult2_eq[of 8 x 512] s512 d4 by simp
  have s8192: "x div 8192 = v6" using zdiv_zmult2_eq[of 2 x 4096] s4096 d5 by simp
  show ?thesis
    by (simp add: e decode_word_eq u d0 d1 d2 d3 d4 d5 d6 s32 s128 s512 s4096 s8192)
qed
lemma encode_decode_word: "encode (decode_word w) = w"
proof -
  define x where "x = uint w"
  have r: "0 \<le> x" "x < 65536" using uint_lt2p[of w] by (simp_all add: x_def)
  have h: "\<And>a m::int. a = a mod m + m * (a div m)" by simp
  have 1: "x = x mod 8 + 8 * (x div 8)" by (rule h)
  have 2: "x div 8 = x div 8 mod 4 + 4 * (x div 32)"
    using h[of "x div 8" 4] zdiv_zmult2_eq[of 4 x 8] by simp
  have 3: "x div 32 = x div 32 mod 4 + 4 * (x div 128)"
    using h[of "x div 32" 4] zdiv_zmult2_eq[of 4 x 32] by simp
  have 4: "x div 128 = x div 128 mod 4 + 4 * (x div 512)"
    using h[of "x div 128" 4] zdiv_zmult2_eq[of 4 x 128] by simp
  have 5: "x div 512 = x div 512 mod 8 + 8 * (x div 4096)"
    using h[of "x div 512" 8] zdiv_zmult2_eq[of 8 x 512] by simp
  have 6: "x div 4096 = x div 4096 mod 2 + 2 * (x div 8192)"
    using h[of "x div 4096" 2] zdiv_zmult2_eq[of 2 x 4096] by simp
  have "x div 8192 \<le> 65535 div 8192"
    using r by (intro zdiv_mono1) simp_all
  then have 7: "x div 8192 mod 8 = x div 8192"
    using r by (simp add: pos_imp_zdiv_nonneg_iff)
  have "x mod 8 + 8 * (x div 8 mod 4) + 32 * (x div 32 mod 4) + 128 * (x div 128 mod 4)
     + 512 * (x div 512 mod 8) + 4096 * (x div 4096 mod 2) + 8192 * (x div 8192 mod 8) = x"
    using 1 2 3 4 5 6 7 by linarith
  then have "sum_list (map2 (\<lambda>v (shift, bitwidth). push_bit shift v) (decode_word w) spec_fields) = uint w"
    by (simp add: decode_word_eq Let_def spec_fields_def push_bit_eq_mult x_def)
  then show ?thesis by (simp add: encode_def)
qed
lemma map2_append_same:
  "map2 (@) (map f xs) (map g xs) = map (\<lambda>x. f x @ g x) xs"
  by (induction xs) simp_all

lemma rows_hcat_map:
  assumes "rows a = map f xs" "rows b = map g xs"
  shows "rows (hcat a b) = map (\<lambda>x. f x @ g x) xs"
  unfolding hcat_def ndarray.sel assms by (rule map2_append_same)

lemma rows_slice_cols:
  "rows (slice_cols lo hi a) = map (\<lambda>r. take (hi - lo) (drop lo r)) (rows a)"
  by (simp add: slice_cols_def)

lemma rows_bands:
  "rows (bands a) =
     map (\<lambda>r. rev (take 55 r @ take 200 (drop 165 r) @ take 290 (drop 1165 r))) (rows a)"
proof -
  have 21: "rows (hcat (slice_cols 165 365 a) (slice_cols 1165 1455 a)) =
      map (\<lambda>r. take (365 - 165) (drop 165 r) @ take (1455 - 1165) (drop 1165 r)) (rows a)"
    by (rule rows_hcat_map) (rule rows_slice_cols)+
  have 321: "rows (hcat (slice_cols 0 55 a) (hcat (slice_cols 165 365 a) (slice_cols 1165 1455 a))) =
      map (\<lambda>r. take (55 - 0) (drop 0 r) @ take (365 - 165) (drop 165 r) @ take (1455 - 1165) (drop 1165 r)) (rows a)"
    by (rule rows_hcat_map) (rule rows_slice_cols 21)+
  have "rows (bands a) = map rev (rows (hcat (slice_cols 0 55 a) (hcat (slice_cols 165 365 a) (slice_cols 1165 1455 a))))"
    by (simp add: bands_def flip_cols_def Let_def)
  also have "\<dots> = map (\<lambda>r. rev (take 55 r @ take 200 (drop 165 r) @ take 290 (drop 1165 r))) (rows a)"
    unfolding 321 by simp
  finally show ?thesis .
qed

lemma length_slice:
  "lo \<le> hi \<Longrightarrow> length (take (hi - lo) (drop lo r)) = min hi (length r) - min lo (length r)"
  by (auto simp add: min_def)

lemma ncols_bands:
  "ncols (bands a) =
     min 55 (ncols a) + ((min 365 (ncols a) - min 165 (ncols a)) + (min 1455 (ncols a) - min 1165 (ncols a)))"
  unfolding bands_def flip_cols_def hcat_def slice_cols_def Let_def hstack.simps ndarray.sel
  by (simp only: min_0L diff_zero add.assoc)

lemma nrows_bands: "nrows (bands a) = nrows a"
  by (simp add: nrows_def rows_bands)

lemma band_row_length:
  "length (rev (take 55 r @ take 200 (drop 165 r) @ take 290 (drop 1165 r))) =
     min 55 (length r) + ((min 365 (length r) - min 165 (length r)) + (min 1455 (length r) - min 1165 (length r)))"
proof -
  have a: "length (take 55 r) = min 55 (length r)"
    by (simp add: min.commute)
  have b: "length (take 200 (drop 165 r)) = min 365 (length r) - min 165 (length r)"
    using length_slice[of 165 365 r] by (simp del: length_take length_drop)
  have c: "length (take 290 (drop 1165 r)) = min 1455 (length r) - min 1165 (length r)"
    using length_slice[of 1165 1455 r] by (simp del: length_take length_drop)
  show ?thesis
    unfolding length_rev length_append a b c by (rule refl)
qed

lemma wf_bands:
  assumes "wf_array a"
  shows "wf_array (bands a)"
proof -
  have "length r' = ncols (bands a)" if "r' \<in> set (rows (bands a))" for r'
  proof -
    from that obtain r where r: "r \<in> set (rows a)"
      and r': "r' = rev (take 55 r @ take 200 (drop 165 r) @ take 290 (drop 1165 r))"
      unfolding rows_bands by auto
    have "length r = ncols a"
      using assms r by (simp add: wf_array_def list_all_iff)
    then show ?thesis
      unfolding r' band_row_length ncols_bands by (simp only:)
  qed
  then show ?thesis
    by (simp add: wf_array_def list_all_iff)
qed

lemma band_row_nth:
  assumes "length r = 5515" "j < 545"
  shows "rev (take 55 r @ take 200 (drop 165 r) @ take 290 (drop 1165 r)) ! j =
         r ! (if j < 290 then 1454 - j else if j < 490 then 654 - j else 544 - j)"
proof -
  let ?xs = "take 55 r @ take 200 (drop 165 r) @ take 290 (drop 1165 r)"
  have len: "length ?xs = 545" using assms by simp
  have "rev ?xs ! j = ?xs ! (544 - j)"
    using rev_nth[of j ?xs] len assms by simp
  also have "\<dots> = r ! (if j < 290 then 1454 - j else if j < 490 then 654 - j else 544 - j)"
    using assms by (auto simp add: nth_append)
  finally show ?thesis .
qed

lemma decode_word_is_spec: "decode_word w = spec_decode_word w"
  by (simp add: decode_word_def spec_decode_word_def spec_fields_def shifts_def bits_def)

lemma fcf_open:
  assumes "end_calls (sd r) = 0" "Feature_Classification_Flags (contents (sd r)) = Some raw"
    and "0 < nrows raw"
  shows "fcf r = Inr (decode (bands raw))"
  using assms by (simp add: fcf_def select_def)

lemma decode_word_length: "length (decode_word w) = 7"
  by (simp add: decode_word_def shifts_def bits_def)

lemma has_shape_decode:
  assumes "wf_array a"
  shows "has_shape (decode a) (nrows a) (ncols a) 7"
  using assms
  by (simp add: has_shape_def decode_def wf_array_def nrows_def list_all_iff decode_word_length)

lemma cell_decode:
  assumes "i < nrows a" "j < length (rows a ! i)"
  shows "cell (decode a) i j = decode_word (cell a i j)"
  using assms by (simp add: cell_def decode_def nrows_def)

lemma wf_row_length: "wf_array a \<Longrightarrow> i < nrows a \<Longrightarrow> length (rows a ! i) = ncols a"
  by (simp add: wf_array_def list_all_length nrows_def)

subsection \<open>The decoded array\<close>

text \<open>
  Claim C1. For every footprint \<open>i\<close> and every altitude bin \<open>j\<close> of the result of
  \<open>fcf\<close>, the decoded record is, field by field, \<open>(raw_word >> shift) & (2^bitwidth - 1)\<close>
  for the pairs (0,3), (3,2), (5,2), (7,2), (9,3), (12,1), (13,3), where \<open>raw_word\<close> is the
  packed word of that footprint and bin.
\<close>

theorem fcf_decodes_every_word:
  assumes "end_calls (sd r) = 0"
    and "Feature_Classification_Flags (contents (sd r)) = Some raw"
    and "wf_array raw"
    and "i < nrows raw" and "j < ncols (bands raw)"
  shows "fcf r = Inr (decode (bands raw)) \<and>
         cell (decode (bands raw)) i j =
           map (\<lambda>(shift, bitwidth). drop_bit shift (uint (cell (bands raw) i j)) AND (2 ^ bitwidth - 1))
             [(0, 3), (3, 2), (5, 2), (7, 2), (9, 3), (12, 1), (13, 3)]"
proof -
  have "length (rows (bands raw) ! i) = ncols (bands raw)"
    using assms wf_bands[of raw] wf_row_length[of "bands raw" i] by (simp add: nrows_bands)
  then have "cell (decode (bands raw)) i j = decode_word (cell (bands raw) i j)"
    using assms cell_decode[of i "bands raw" j] by (simp add: nrows_bands)
  moreover have "0 < nrows raw"
    using assms(4) by simp
  ultimately show ?thesis
    using fcf_open[OF assms(1,2)]
    by (simp add: decode_word_def shifts_def bits_def)
qed

theorem fcf_decodes_every_word_witness:
  "end_calls (sd (opened (flags_only narrow_flags))) = 0 \<and>
   Feature_Classification_Flags (contents (sd (opened (flags_only narrow_flags)))) = Some narrow_flags \<and>
   wf_array narrow_flags \<and> 0 < nrows narrow_flags \<and> 0 < ncols (bands narrow_flags) \<and>
   fcf (opened (flags_only narrow_flags)) = Inr (NDArray 1 [[[7, 3, 3, 3, 7, 1, 7]]]) \<and>
   cell (NDArray 1 [[[7, 3, 3, 3, 7, 1, 7]]]) 0 0 = [7, 3, 3, 3, 7, 1, 7]"
proof -
  have h: "end_calls (sd (opened (flags_only narrow_flags))) = 0"
    "Feature_Classification_Flags (contents (sd (opened (flags_only narrow_flags)))) = Some narrow_flags"
    "wf_array narrow_flags" "0 < nrows narrow_flags" "0 < ncols (bands narrow_flags)"
    by (simp_all add: opened_def flags_only_def narrow_flags_def wf_array_def nrows_def ncols_bands)
  have d: "decode (bands narrow_flags) = NDArray 1 [[[7, 3, 3, 3, 7, 1, 7]]]"
    by (simp add: decode_def ncols_bands rows_bands narrow_flags_def decode_word_eq)
  show ?thesis
    using fcf_decodes_every_word[OF h] h by (simp add: d cell_def)
qed

subsection \<open>Round trip\<close>

text \<open>
  Claim C6. For seven field values, each below two to the power of its bit width, decoding
  the word formed by summing the shifted values gives the seven values back. The fields
  are disjoint and cover the 16 bits: the first starts at bit 0, each one starts where the
  one before ends, the last ends at bit 16, and encoding the decoded fields of any word
  gives the word back.
\<close>

theorem decode_encode_roundtrip:
  assumes "list_all2 (\<lambda>v (shift, bitwidth). 0 \<le> v \<and> v < 2 ^ bitwidth) vs spec_fields"
  shows "decode_word (encode vs) = vs \<and>
         encode (decode_word w) = w \<and>
         fst (hd spec_fields) = 0 \<and>
         map (\<lambda>(shift, bitwidth). shift + bitwidth) spec_fields = tl (map fst spec_fields) @ [16] \<and>
         shifts = map fst spec_fields \<and>
         bits = map (\<lambda>(shift, bitwidth). 2 ^ bitwidth - 1) spec_fields"
proof -
  from assms obtain v0 v1 v2 v3 v4 v5 v6 where vs: "vs = [v0, v1, v2, v3, v4, v5, v6]"
    and b: "0 \<le> v0" "v0 < 8" "0 \<le> v1" "v1 < 4" "0 \<le> v2" "v2 < 4" "0 \<le> v3" "v3 < 4"
     "0 \<le> v4" "v4 < 8" "0 \<le> v5" "v5 < 2" "0 \<le> v6" "v6 < 8"
    by (auto simp add: spec_fields_def list_all2_Cons2)
  have "decode_word (encode vs) = vs"
    unfolding vs using b by (rule decode_encode_fields)
  then show ?thesis
    by (simp add: encode_decode_word) (simp add: spec_fields_def shifts_def bits_def)
qed

theorem decode_encode_roundtrip_witness:
  "list_all2 (\<lambda>v (shift, bitwidth). 0 \<le> v \<and> v < 2 ^ bitwidth) [5::int, 2, 1, 3, 6, 1, 4] spec_fields \<and>
   encode [5, 2, 1, 3, 6, 1, 4] = 0x9DB5 \<and>
   decode_word 0x9DB5 = [5, 2, 1, 3, 6, 1, 4]"
proof -
  have h: "list_all2 (\<lambda>v (shift, bitwidth). 0 \<le> v \<and> v < 2 ^ bitwidth) [5::int, 2, 1, 3, 6, 1, 4] spec_fields"
    by (simp add: spec_fields_def)
  have e: "encode [5, 2, 1, 3, 6, 1, 4] = 0x9DB5"
    by (simp add: encode_def spec_fields_def)
  show ?thesis
    using decode_encode_roundtrip[OF h, of 0] h e by simp
qed

subsection \<open>Band selection\<close>

lemma column_range_eq:
  assumes "lo \<le> hi" "hi \<le> length row"
  shows "take (hi - lo) (drop lo row) = column_range lo hi row"
  using assms by (intro nth_equalityI) (simp_all add: column_range_def)

text \<open>
  Claim C2. On a raw array of shape (nrec, 5515) with at least one record, \<open>fcf\<close> takes the column ranges
  [0:55), [165:365) and [1165:1455), concatenates them in this order to 545 columns and
  reverses the column order; the result has shape (nrec, 545, 7). Output column \<open>j\<close> is
  raw column \<open>1454 - j\<close> below 290, \<open>654 - j\<close> below 490 and \<open>544 - j\<close> from there on.
\<close>

theorem fcf_selects_three_bands:
  assumes "end_calls (sd r) = 0"
    and "Feature_Classification_Flags (contents (sd r)) = Some raw"
    and "wf_array raw" and "ncols raw = 5515" and "0 < nrows raw"
  shows "\<exists>out. fcf r = Inr out \<and> has_shape out (nrows raw) 545 7 \<and>
           rows out = map (\<lambda>row. map decode_word
              (rev (column_range 0 55 row @ column_range 165 365 row @ column_range 1165 1455 row)))
              (rows raw) \<and>
           (\<forall>i<nrows raw. \<forall>j<545. cell out i j =
              decode_word (cell raw i (if j < 290 then 1454 - j else if j < 490 then 654 - j else 544 - j)))"
proof -
  have len: "length row = 5515" if "row \<in> set (rows raw)" for row
    using that assms(3,4) by (simp add: wf_array_def list_all_iff)
  have sel: "rev (take 55 row @ take 200 (drop 165 row) @ take 290 (drop 1165 row)) =
      rev (column_range 0 55 row @ column_range 165 365 row @ column_range 1165 1455 row)"
    if "row \<in> set (rows raw)" for row
    using column_range_eq[of 0 55 row] column_range_eq[of 165 365 row]
      column_range_eq[of 1165 1455 row] len[OF that] by simp
  have 1: "fcf r = Inr (decode (bands raw))"
    using assms(1,2,5) by (rule fcf_open)
  have 2: "has_shape (decode (bands raw)) (nrows raw) 545 7"
    using has_shape_decode[OF wf_bands[OF assms(3)]] assms(4)
    by (simp add: nrows_bands ncols_bands)
  have 3: "rows (decode (bands raw)) = map (\<lambda>row. map decode_word
              (rev (column_range 0 55 row @ column_range 165 365 row @ column_range 1165 1455 row)))
              (rows raw)"
    using sel by (simp add: decode_def rows_bands del: rev_append)
  have 4: "cell (decode (bands raw)) i j =
      decode_word (cell raw i (if j < 290 then 1454 - j else if j < 490 then 654 - j else 544 - j))"
    if "i < nrows raw" "j < 545" for i j
  proof -
    have l: "length (rows raw ! i) = 5515"
      using that(1) len by (simp add: nrows_def)
    have "cell (decode (bands raw)) i j = decode_word (cell (bands raw) i j)"
      using that l by (intro cell_decode) (simp_all add: nrows_bands rows_bands nrows_def)
    also have "cell (bands raw) i j =
        cell raw i (if j < 290 then 1454 - j else if j < 490 then 654 - j else 544 - j)"
      using that band_row_nth[OF l that(2)]
      by (simp add: cell_def rows_bands nrows_def del: rev_append)
    finally show ?thesis .
  qed
  show ?thesis
    using 1 2 3 4 by blast
qed

theorem fcf_selects_three_bands_witness:
  "end_calls (sd (opened (flags_only wide_flags))) = 0 \<and>
   Feature_Classification_Flags (contents (sd (opened (flags_only wide_flags)))) = Some wide_flags \<and>
   wf_array wide_flags \<and> ncols wide_flags = 5515 \<and> 0 < nrows wide_flags \<and>
   (\<exists>out. fcf (opened (flags_only wide_flags)) = Inr out \<and> has_shape out 1 545 7 \<and>
      cell out 0 0 = decode_word 1454 \<and> cell out 0 289 = decode_word 1165 \<and>
      cell out 0 290 = decode_word 364 \<and> cell out 0 489 = decode_word 165 \<and>
      cell out 0 490 = decode_word 54 \<and> cell out 0 544 = decode_word 0)"
proof -
  have h: "end_calls (sd (opened (flags_only wide_flags))) = 0"
    "Feature_Classification_Flags (contents (sd (opened (flags_only wide_flags)))) = Some wide_flags"
    "wf_array wide_flags" "ncols wide_flags = 5515" "0 < nrows wide_flags"
    by (simp_all add: opened_def flags_only_def wide_flags_def wf_array_def nrows_def)
  have n: "nrows wide_flags = 1"
    by (simp add: nrows_def wide_flags_def)
  have c: "cell wide_flags 0 k = of_nat k" if "k < 5515" for k
    using that by (simp add: cell_def wide_flags_def)
  from fcf_selects_three_bands[OF h] obtain out where o: "fcf (opened (flags_only wide_flags)) = Inr out"
    "has_shape out (nrows wide_flags) 545 7"
    "\<forall>i<nrows wide_flags. \<forall>j<545. cell out i j =
       decode_word (cell wide_flags i (if j < 290 then 1454 - j else if j < 490 then 654 - j else 544 - j))"
    by blast
  have "cell out 0 0 = decode_word 1454" "cell out 0 289 = decode_word 1165"
    "cell out 0 290 = decode_word 364" "cell out 0 489 = decode_word 165"
    "cell out 0 490 = decode_word 54" "cell out 0 544 = decode_word 0"
    using o(3) n by (simp_all add: c)
  then show ?thesis
    using h o(1,2) n by auto
qed

subsection \<open>No check of the column count\<close>

text \<open>
  Claim C4, as the code has it. On an open handle \<open>fcf\<close> fails with ReadError when the
  dataset is absent or has no record. When the dataset is present with at least one record
  it returns a result whatever the column count \<open>n\<close> is: the slices are clipped, and the
  result has shape (nrec, c, 7), where \<open>c\<close> is the number of columns that the three ranges
  have in an array of \<open>n\<close> columns.
\<close>

theorem fcf_checks_no_width:
  assumes "end_calls (sd r) = 0"
  shows "(Feature_Classification_Flags (contents (sd r)) = None \<longrightarrow> fcf r = Inl ReadError) \<and>
         (\<forall>raw. Feature_Classification_Flags (contents (sd r)) = Some raw \<and> nrows raw = 0 \<longrightarrow>
            fcf r = Inl ReadError) \<and>
         (\<forall>raw. Feature_Classification_Flags (contents (sd r)) = Some raw \<and> 0 < nrows raw \<and>
                wf_array raw \<longrightarrow>
            (\<exists>out. fcf r = Inr out \<and>
               has_shape out (nrows raw)
                 (min 55 (ncols raw) + ((min 365 (ncols raw) - min 165 (ncols raw))
                    + (min 1455 (ncols raw) - min 1165 (ncols raw)))) 7))"
proof (intro conjI allI impI)
  assume "Feature_Classification_Flags (contents (sd r)) = None"
  then show "fcf r = Inl ReadError"
    using assms by (simp add: fcf_def select_def)
next
  fix raw
  assume "Feature_Classification_Flags (contents (sd r)) = Some raw \<and> nrows raw = 0"
  then show "fcf r = Inl ReadError"
    using assms by (simp add: fcf_def select_def)
next
  fix raw
  assume a: "Feature_Classification_Flags (contents (sd r)) = Some raw \<and> 0 < nrows raw \<and>
    wf_array raw"
  have "fcf r = Inr (decode (bands raw))"
    using assms a by (intro fcf_open) simp_all
  moreover have "has_shape (decode (bands raw)) (nrows raw)
      (min 55 (ncols raw) + ((min 365 (ncols raw) - min 165 (ncols raw))
         + (min 1455 (ncols raw) - min 1165 (ncols raw)))) 7"
    using has_shape_decode[OF wf_bands[of raw]] a
    unfolding nrows_bands ncols_bands by blast
  ultimately show "\<exists>out. fcf r = Inr out \<and>
       has_shape out (nrows raw)
         (min 55 (ncols raw) + ((min 365 (ncols raw) - min 165 (ncols raw))
            + (min 1455 (ncols raw) - min 1165 (ncols raw)))) 7"
    by blast
qed

theorem fcf_checks_no_width_witness:
  "end_calls (sd (opened (flags_only narrow_flags))) = 0 \<and>
   Feature_Classification_Flags (contents (sd (opened (flags_only narrow_flags)))) = Some narrow_flags \<and>
   0 < nrows narrow_flags \<and> wf_array narrow_flags \<and> ncols narrow_flags = 1 \<and>
   (\<exists>out. fcf (opened (flags_only narrow_flags)) = Inr out \<and> has_shape out 1 1 7) \<and>
   Feature_Classification_Flags (contents (sd (opened (flags_only empty_flags)))) = Some empty_flags \<and>
   nrows empty_flags = 0 \<and>
   fcf (opened (flags_only empty_flags)) = Inl ReadError"
proof -
  have h: "end_calls (sd (opened (flags_only narrow_flags))) = 0"
    and h': "end_calls (sd (opened (flags_only empty_flags))) = 0"
    by (simp_all add: opened_def)
  have n: "Feature_Classification_Flags (contents (sd (opened (flags_only narrow_flags)))) = Some narrow_flags"
    "0 < nrows narrow_flags" "wf_array narrow_flags" "ncols narrow_flags = 1" "nrows narrow_flags = 1"
    by (simp_all add: opened_def flags_only_def narrow_flags_def nrows_def wf_array_def)
  have e: "Feature_Classification_Flags (contents (sd (opened (flags_only empty_flags)))) = Some empty_flags"
    "nrows empty_flags = 0"
    by (simp_all add: opened_def flags_only_def empty_flags_def nrows_def)
  have "\<exists>out. fcf (opened (flags_only narrow_flags)) = Inr out \<and> has_shape out 1 1 7"
    using fcf_checks_no_width[OF h] n by auto
  moreover have "fcf (opened (flags_only empty_flags)) = Inl ReadError"
    using fcf_checks_no_width[OF h'] e by blast
  ultimately show ?thesis
    using h n e by simp
qed

text \<open>
  A flags dataset with a single column is accepted: the result has one column.
\<close>

theorem fcf_width_counterexample:
  "Feature_Classification_Flags (contents (sd (opened (flags_only narrow_flags)))) = Some narrow_flags \<and>
   ncols narrow_flags \<noteq> 5515 \<and>
   fcf (opened (flags_only narrow_flags)) = Inr (NDArray 1 [[[7, 3, 3, 3, 7, 1, 7]]])"
proof -
  have "decode (bands narrow_flags) = NDArray 1 [[[7, 3, 3, 3, 7, 1, 7]]]"
    by (simp add: decode_def ncols_bands rows_bands narrow_flags_def decode_word_eq)
  then show ?thesis
    by (simp add: fcf_def select_def opened_def flags_only_def nrows_def) (simp add: narrow_flags_def)
qed

subsection \<open>The altitude grid\<close>

text \<open>
  Every float64 operation is within \<open>(|x| + 1) * 1.2e-16\<close> of its exact result \<open>x\<close>;
  the errors of the three operations of a height value add up to less than \<open>1e-13\<close>.
\<close>

lemma round_double_close: "\<bar>round_double x - x\<bar> \<le> (\<bar>x\<bar> + 1) * (12 / 10 ^ 17)"
proof -
  have "(\<bar>x\<bar> + 1) / 2 ^ 53 = (\<bar>x\<bar> + 1) * (1 / 2 ^ 53)" by simp
  also have "\<dots> \<le> (\<bar>x\<bar> + 1) * (12 / 10 ^ 17)"
    by (intro mult_left_mono) simp_all
  finally show ?thesis
    using round_double_error[of x] by linarith
qed

lemma double_close:
  assumes "(\<bar>x\<bar> + 1) * (12 / 10 ^ 17) \<le> e"
  shows "\<bar>double x - x\<bar> \<le> e"
  using round_double_close[of x] assms by (simp add: double_def)

lemma fadd_close:
  assumes "\<bar>a - A\<bar> \<le> ea" "\<bar>b - B\<bar> \<le> eb" "\<bar>A + B\<bar> + ea + eb + 1 \<le> M"
    and "ea + eb + M * (12 / 10 ^ 17) \<le> e"
  shows "\<bar>fadd a b - (A + B)\<bar> \<le> e"
proof -
  have 1: "\<bar>(a + b) - (A + B)\<bar> \<le> ea + eb"
    using assms(1,2) by linarith
  then have "\<bar>a + b\<bar> + 1 \<le> M"
    using assms(3) by linarith
  then have "(\<bar>a + b\<bar> + 1) * (12 / 10 ^ 17) \<le> M * (12 / 10 ^ 17)"
    by (intro mult_right_mono) simp_all
  then have "\<bar>round_double (a + b) - (a + b)\<bar> \<le> M * (12 / 10 ^ 17)"
    using round_double_close[of "a + b"] by linarith
  then show ?thesis
    using 1 assms(4) unfolding fadd_def by linarith
qed

lemma fsub_close:
  assumes "\<bar>a - A\<bar> \<le> ea" "\<bar>b - B\<bar> \<le> eb" "\<bar>A - B\<bar> + ea + eb + 1 \<le> M"
    and "ea + eb + M * (12 / 10 ^ 17) \<le> e"
  shows "\<bar>fsub a b - (A - B)\<bar> \<le> e"
proof -
  have 1: "\<bar>(a - b) - (A - B)\<bar> \<le> ea + eb"
    using assms(1,2) by linarith
  then have "\<bar>a - b\<bar> + 1 \<le> M"
    using assms(3) by linarith
  then have "(\<bar>a - b\<bar> + 1) * (12 / 10 ^ 17) \<le> M * (12 / 10 ^ 17)"
    by (intro mult_right_mono) simp_all
  then have "\<bar>round_double (a - b) - (a - b)\<bar> \<le> M * (12 / 10 ^ 17)"
    using round_double_close[of "a - b"] by linarith
  then show ?thesis
    using 1 assms(4) unfolding fsub_def by linarith
qed

lemma fmul_close:
  assumes "\<bar>a - A\<bar> \<le> ea" "\<bar>c - C\<bar> \<le> ec" "\<bar>A\<bar> \<le> MA" "\<bar>C\<bar> \<le> MC"
    and "ea * (MC + ec) + MA * ec + ((MA + ea) * (MC + ec) + 1) * (12 / 10 ^ 17) \<le> e"
  shows "\<bar>fmul a c - A * C\<bar> \<le> e"
proof -
  have ea: "0 \<le> ea" and ec: "0 \<le> ec" and MA: "0 \<le> MA" and MC: "0 \<le> MC"
    using assms(1-4) by linarith+
  have ca: "\<bar>c\<bar> \<le> MC + ec" and aa: "\<bar>a\<bar> \<le> MA + ea"
    using assms(1-4) by linarith+
  have "a * c - A * C = (a - A) * c + A * (c - C)"
    by (simp add: algebra_simps)
  then have "\<bar>a * c - A * C\<bar> \<le> \<bar>a - A\<bar> * \<bar>c\<bar> + \<bar>A\<bar> * \<bar>c - C\<bar>"
    by (metis abs_mult abs_triangle_ineq)
  also have "\<dots> \<le> ea * (MC + ec) + MA * ec"
    using assms(1-4) ca ea ec MA MC
    by (intro add_mono mult_mono) simp_all
  finally have 1: "\<bar>a * c - A * C\<bar> \<le> ea * (MC + ec) + MA * ec" .
  have "\<bar>a * c\<bar> = \<bar>a\<bar> * \<bar>c\<bar>" by (rule abs_mult)
  also have "\<dots> \<le> (MA + ea) * (MC + ec)"
    using aa ca ea ec MA MC by (intro mult_mono) simp_all
  finally have "(\<bar>a * c\<bar> + 1) * (12 / 10 ^ 17) \<le> ((MA + ea) * (MC + ec) + 1) * (12 / 10 ^ 17)"
    by (intro mult_right_mono) simp_all
  then have "\<bar>round_double (a * c) - a * c\<bar> \<le> ((MA + ea) * (MC + ec) + 1) * (12 / 10 ^ 17)"
    using round_double_close[of "a * c"] by linarith
  then show ?thesis
    using 1 assms(5) unfolding fmul_def by linarith
qed

lemma height1_close:
  assumes "0 \<le> x" "x \<le> 289"
  shows "\<bar>fsub (fmul (fadd x (double 0.5)) (double 0.03)) (double 0.5) - ((x + 0.5) * 0.03 - 0.5)\<bar>
           \<le> 1 / 10 ^ 13"
proof -
  have h: "\<bar>double 0.5 - 0.5\<bar> \<le> 2 / 10 ^ 16"
    by (rule double_close) simp
  have c: "\<bar>double 0.03 - 0.03\<bar> \<le> 2 / 10 ^ 16"
    by (rule double_close) simp
  have a: "\<bar>fadd x (double 0.5) - (x + 0.5)\<bar> \<le> 4 / 10 ^ 14"
    using assms by (intro fadd_close[where ea = 0 and eb = "2 / 10 ^ 16" and M = 291] h) simp_all
  have p: "\<bar>fmul (fadd x (double 0.5)) (double 0.03) - (x + 0.5) * 0.03\<bar> \<le> 7 / 10 ^ 14"
    using assms
    by (intro fmul_close[where ea = "4 / 10 ^ 14" and ec = "2 / 10 ^ 16" and MA = 290 and MC = "0.03"] a c)
      simp_all
  have m: "\<bar>(x + 0.5) * 0.03 - 0.5\<bar> \<le> 9" using assms by (simp add: abs_le_iff algebra_simps)
  show ?thesis
    using m
    by (intro fsub_close[where ea = "7 / 10 ^ 14" and eb = "2 / 10 ^ 16" and M = 11] p h) simp_all
qed

lemma height2_close:
  assumes "0 \<le> x" "x \<le> 199"
  shows "\<bar>fadd (fmul (fadd x (double 0.5)) (double 0.06)) (double 8.2) - ((x + 0.5) * 0.06 + 8.2)\<bar>
           \<le> 1 / 10 ^ 13"
proof -
  have h: "\<bar>double 0.5 - 0.5\<bar> \<le> 2 / 10 ^ 16"
    by (rule double_close) simp
  have c: "\<bar>double 0.06 - 0.06\<bar> \<le> 2 / 10 ^ 16"
    by (rule double_close) simp
  have o: "\<bar>double 8.2 - 8.2\<bar> \<le> 2 / 10 ^ 15"
    by (rule double_close) simp
  have a: "\<bar>fadd x (double 0.5) - (x + 0.5)\<bar> \<le> 4 / 10 ^ 14"
    using assms by (intro fadd_close[where ea = 0 and eb = "2 / 10 ^ 16" and M = 291] h) simp_all
  have p: "\<bar>fmul (fadd x (double 0.5)) (double 0.06) - (x + 0.5) * 0.06\<bar> \<le> 7 / 10 ^ 14"
    using assms
    by (intro fmul_close[where ea = "4 / 10 ^ 14" and ec = "2 / 10 ^ 16" and MA = 200 and MC = "0.06"] a c)
      simp_all
  have m: "\<bar>(x + 0.5) * 0.06 + 8.2\<bar> \<le> 21" using assms by (auto simp add: abs_le_iff field_simps)
  show ?thesis
    using m
    by (intro fadd_close[where ea = "7 / 10 ^ 14" and eb = "2 / 10 ^ 15" and M = 23] p o) simp_all
qed

lemma height3_close:
  assumes "0 \<le> x" "x \<le> 54"
  shows "\<bar>fadd (fmul (fadd x (double 0.5)) (double 0.18)) (double 20.2) - ((x + 0.5) * 0.18 + 20.2)\<bar>
           \<le> 1 / 10 ^ 13"
proof -
  have h: "\<bar>double 0.5 - 0.5\<bar> \<le> 2 / 10 ^ 16"
    by (rule double_close) simp
  have c: "\<bar>double 0.18 - 0.18\<bar> \<le> 2 / 10 ^ 16"
    by (rule double_close) simp
  have o: "\<bar>double 20.2 - 20.2\<bar> \<le> 3 / 10 ^ 15"
    by (rule double_close) simp
  have a: "\<bar>fadd x (double 0.5) - (x + 0.5)\<bar> \<le> 4 / 10 ^ 14"
    using assms by (intro fadd_close[where ea = 0 and eb = "2 / 10 ^ 16" and M = 291] h) simp_all
  have p: "\<bar>fmul (fadd x (double 0.5)) (double 0.18) - (x + 0.5) * 0.18\<bar> \<le> 7 / 10 ^ 14"
    using assms
    by (intro fmul_close[where ea = "4 / 10 ^ 14" and ec = "2 / 10 ^ 16" and MA = 55 and MC = "0.18"] a c)
      simp_all
  have m: "\<bar>(x + 0.5) * 0.18 + 20.2\<bar> \<le> 31" using assms by (auto simp add: abs_le_iff field_simps)
  show ?thesis
    using m
    by (intro fadd_close[where ea = "7 / 10 ^ 14" and eb = "3 / 10 ^ 15" and M = 33] p o) simp_all
qed

lemma height_eq:
  "height r =
     map (\<lambda>i. fsub (fmul (fadd (real i) (double 0.5)) (double 0.03)) (double 0.5)) [0..<290] @
     map (\<lambda>j. fadd (fmul (fadd (real j) (double 0.5)) (double 0.06)) (double 8.2)) [0..<200] @
     map (\<lambda>k. fadd (fmul (fadd (real k) (double 0.5)) (double 0.18)) (double 20.2)) [0..<55]"
  by (simp add: height_def arange_def Let_def comp_def)

lemma height_length: "length (height r) = 545"
  by (simp add: height_eq)

lemma spec_height_length: "length spec_height = 545"
  by (simp add: spec_height_def)

lemma spec_height_nth1: "i < 290 \<Longrightarrow> spec_height ! i = (real i + 0.5) * 0.03 - 0.5"
  by (simp add: spec_height_def nth_append)

lemma spec_height_nth2: "j < 200 \<Longrightarrow> spec_height ! (290 + j) = (real j + 0.5) * 0.06 + 8.2"
  by (simp add: spec_height_def nth_append)

lemma spec_height_nth3: "k < 55 \<Longrightarrow> spec_height ! (490 + k) = (real k + 0.5) * 0.18 + 20.2"
  by (simp add: spec_height_def nth_append)

lemma height_nth1:
  assumes "i < 290"
  shows "\<bar>height r ! i - ((real i + 0.5) * 0.03 - 0.5)\<bar> \<le> 1 / 10 ^ 13"
proof -
  have "real i \<le> 289" using assms by simp
  then show ?thesis
    using assms height1_close[of "real i"] by (simp add: height_eq nth_append)
qed

lemma height_nth2:
  assumes "j < 200"
  shows "\<bar>height r ! (290 + j) - ((real j + 0.5) * 0.06 + 8.2)\<bar> \<le> 1 / 10 ^ 13"
proof -
  have "real j \<le> 199" using assms by simp
  then show ?thesis
    using assms height2_close[of "real j"] by (simp add: height_eq nth_append)
qed

lemma height_nth3:
  assumes "k < 55"
  shows "\<bar>height r ! (490 + k) - ((real k + 0.5) * 0.18 + 20.2)\<bar> \<le> 1 / 10 ^ 13"
proof -
  have "real k \<le> 54" using assms by simp
  then show ?thesis
    using assms height3_close[of "real k"] by (simp add: height_eq nth_append)
qed

lemma height_close_spec:
  assumes "n < 545"
  shows "\<bar>height r ! n - spec_height ! n\<bar> \<le> 1 / 10 ^ 13"
proof -
  consider "n < 290" | j where "n = 290 + j" "j < 200" | k where "n = 490 + k" "k < 55"
  proof -
    have "n < 290 \<or> (n = 290 + (n - 290) \<and> n - 290 < 200) \<or> (n = 490 + (n - 490) \<and> n - 490 < 55)"
      using assms by linarith
    then show ?thesis using that by blast
  qed
  then show ?thesis
  proof cases
    case 1
    then show ?thesis using height_nth1[of n r] by (simp add: spec_height_nth1)
  next
    case 2
    then show ?thesis using height_nth2[of j r] by (simp add: spec_height_nth2)
  next
    case 3
    then show ?thesis using height_nth3[of k r] by (simp add: spec_height_nth3)
  qed
qed

lemma close_D:
  fixes a b :: real
  assumes "\<bar>a - b\<bar> \<le> 1 / 10 ^ 13"
  shows "b - 1 / 1000 < a" "a < b + 1 / 1000"
proof -
  from assms have "\<bar>a - b\<bar> \<le> 1 / 10000000000000" by simp
  then show "b - 1 / 1000 < a" "a < b + 1 / 1000" by linarith+
qed

lemma sorted_wrt_map_upt:
  assumes "\<And>i j. i < j \<Longrightarrow> j < n \<Longrightarrow> R (f i) (f j)"
  shows "sorted_wrt R (map f [0..<n])"
  using assms by (simp add: sorted_wrt_iff_nth_less)

lemma spec_height_gaps: "sorted_wrt (\<lambda>a b. a + 0.03 \<le> b) spec_height"
proof -
  let ?R = "\<lambda>a b::real. a + 0.03 \<le> b"
  let ?h1 = "map (\<lambda>i. (real i + 0.5) * 0.03 - 0.5) [0..<290]"
  let ?h2 = "map (\<lambda>j. (real j + 0.5) * 0.06 + 8.2) [0..<200]"
  let ?h3 = "map (\<lambda>k. (real k + 0.5) * 0.18 + 20.2) [0..<55]"
  have step: "real i + 1 \<le> real j" if "i < j" for i j :: nat
    using that by linarith
  have s1: "sorted_wrt ?R ?h1"
  proof (rule sorted_wrt_map_upt)
    fix i j :: nat assume "i < j"
    from step[OF this] show "(real i + 0.5) * 0.03 - 0.5 + 0.03 \<le> (real j + 0.5) * 0.03 - 0.5"
      by (simp add: field_simps)
  qed
  have s2: "sorted_wrt ?R ?h2"
  proof (rule sorted_wrt_map_upt)
    fix i j :: nat assume "i < j"
    from step[OF this] show "(real i + 0.5) * 0.06 + 8.2 + 0.03 \<le> (real j + 0.5) * 0.06 + 8.2"
      by (simp add: field_simps)
  qed
  have s3: "sorted_wrt ?R ?h3"
  proof (rule sorted_wrt_map_upt)
    fix i j :: nat assume "i < j"
    from step[OF this] show "(real i + 0.5) * 0.18 + 20.2 + 0.03 \<le> (real j + 0.5) * 0.18 + 20.2"
      by (simp add: field_simps)
  qed
  have b1: "x \<le> 8.185" if "x \<in> set ?h1" for x
  proof -
    from that obtain i where "i < 290" and x: "x = (real i + 0.5) * 0.03 - 0.5" by auto
    then have "real i \<le> 289" by simp
    then show ?thesis unfolding x by (simp add: field_simps)
  qed
  have b2: "8.23 \<le> x \<and> x \<le> 20.17" if "x \<in> set ?h2" for x
  proof -
    from that obtain j where "j < 200" and x: "x = (real j + 0.5) * 0.06 + 8.2" by auto
    then have "real j \<le> 199" "0 \<le> real j" by simp_all
    then show ?thesis unfolding x by (simp add: field_simps)
  qed
  have b3: "20.29 \<le> x" if "x \<in> set ?h3" for x
  proof -
    from that obtain k where x: "x = (real k + 0.5) * 0.18 + 20.2" by auto
    have "0 \<le> real k" by simp
    then show ?thesis unfolding x by (simp add: field_simps)
  qed
  have c23: "y + 0.03 \<le> z" if "y \<in> set ?h2" "z \<in> set ?h3" for y z
    using b2[OF that(1)] b3[OF that(2)] by linarith
  have s23: "sorted_wrt ?R (?h2 @ ?h3)"
    unfolding sorted_wrt_append using s2 s3 c23 by blast
  have c123: "y + 0.03 \<le> z" if "y \<in> set ?h1" "z \<in> set (?h2 @ ?h3)" for y z
  proof -
    from that(2) have "z \<in> set ?h2 \<or> z \<in> set ?h3"
      by (simp only: set_append Un_iff)
    then have "8.23 \<le> z"
      using b2 b3 by force
    then show ?thesis
      using b1[OF that(1)] by simp
  qed
  have "sorted_wrt ?R (?h1 @ ?h2 @ ?h3)"
    unfolding sorted_wrt_append[of _ ?h1] using s1 s23 c123 by blast
  then show ?thesis by (simp only: spec_height_def)
qed

lemma height_sorted: "sorted_wrt (<) (height r)"
proof -
  have "height r ! i < height r ! j" if "i < j" "j < 545" for i j
  proof -
    have "spec_height ! i + 3 / 100 \<le> spec_height ! j"
      using spec_height_gaps that by (simp add: sorted_wrt_iff_nth_less spec_height_length)
    moreover have "height r ! i < spec_height ! i + 1 / 1000"
      using that by (intro close_D height_close_spec) simp
    moreover have "spec_height ! j - 1 / 1000 < height r ! j"
      using that by (intro close_D height_close_spec) simp
    ultimately show ?thesis by linarith
  qed
  then show ?thesis
    by (simp add: sorted_wrt_iff_nth_less height_length)
qed

text \<open>The values at the indices 290 and 544, evaluated bit by bit.\<close>

lemma double_half: "double 0.5 = 1 / 2"
  using round_double_eval[of "- 1" "0.5"] by (simp add: double_def round_half_even_def)

lemma double_006: "double 0.06 = 1080863910568919 / 18014398509481984"
  using round_double_eval[of "- 5" "0.06"]
  by (simp add: double_def round_half_even_def power_int_minus)

lemma double_82: "double 8.2 = 2308094809027379 / 281474976710656"
  using round_double_eval[of 3 "8.2"]
  by (simp add: double_def round_half_even_def power_int_minus)

lemma height_290: "height r ! 290 = 4633078116657397 / 562949953421312"
proof -
  have a: "fadd 0 (double 0.5) = 1 / 2"
    unfolding fadd_def double_half using round_double_eval[of "- 1" "1 / 2"]
    by (simp add: round_half_even_def)
  have p: "fmul (1 / 2) (double 0.06) = 1080863910568919 / 36028797018963968"
    unfolding fmul_def double_006
    using round_double_eval[of "- 6" "1080863910568919 / 36028797018963968"]
    by (simp add: round_half_even_def power_int_minus)
  have s: "fadd (1080863910568919 / 36028797018963968) (double 8.2) = 4633078116657397 / 562949953421312"
    unfolding fadd_def double_82
    using round_double_eval[of 3 "1080863910568919 / 36028797018963968 + 2308094809027379 / 281474976710656"]
    by (simp add: round_half_even_def power_int_minus)
  have "height r ! 290 = fadd (fmul (fadd 0 (double 0.5)) (double 0.06)) (double 8.2)"
    by (simp add: height_eq nth_append)
  then show ?thesis
    by (simp only: a p s)
qed

lemma double_018: "double 0.18 = 3242591731706757 / 18014398509481984"
  using round_double_eval[of "- 3" "0.18"]
  by (simp add: double_def round_half_even_def power_int_minus)

lemma double_202: "double 20.2 = 5685794529555251 / 281474976710656"
  using round_double_eval[of 4 "20.2"]
  by (simp add: double_def round_half_even_def power_int_minus)

lemma height_544: "height r ! 544 = 4223532025543393 / 140737488355328"
proof -
  have a: "fadd 54 (double 0.5) = 109 / 2"
    unfolding fadd_def double_half using round_double_eval[of 5 "109 / 2"]
    by (simp add: round_half_even_def power_int_minus)
  have p: "fmul (109 / 2) (double 0.18) = 5522539043063071 / 562949953421312"
    unfolding fmul_def double_018
    using round_double_eval[of 3 "353442498756036513 / 36028797018963968"]
    by (simp add: round_half_even_def power_int_minus)
  have s: "fadd (5522539043063071 / 562949953421312) (double 20.2) = 4223532025543393 / 140737488355328"
    unfolding fadd_def double_202
    using round_double_eval[of 4 "5522539043063071 / 562949953421312 + 5685794529555251 / 281474976710656"]
    by (simp add: round_half_even_def power_int_minus)
  have "height r ! 544 = fadd (fmul (fadd 54 (double 0.5)) (double 0.18)) (double 20.2)"
    by (simp add: height_eq nth_append)
  then show ?thesis
    by (simp only: a p s)
qed

text \<open>
  Claim C3, as the code has it. \<open>height\<close> has 545 values computed from the closed forms
  \<open>(i + 0.5) * 0.03 - 0.5\<close> for the first 290, \<open>(j + 0.5) * 0.06 + 8.2\<close> for the next
  200 and \<open>(k + 0.5) * 0.18 + 20.2\<close> for the last 55 in float64 arithmetic, whatever the
  reader is: each value is within \<open>1e-13\<close> of its closed form. The sequence is strictly
  increasing, and its values at the indices 0, 289, 290, 489, 490 and 544 are -0.485,
  8.185, 8.23, 20.17, 20.29 and 30.01 km, each up to \<open>1e-13\<close>.
\<close>

theorem height_closed_form:
  "length (height r) = 545 \<and>
   (\<forall>i<290. \<bar>height r ! i - ((real i + 0.5) * 0.03 - 0.5)\<bar> \<le> 1 / 10 ^ 13) \<and>
   (\<forall>j<200. \<bar>height r ! (290 + j) - ((real j + 0.5) * 0.06 + 8.2)\<bar> \<le> 1 / 10 ^ 13) \<and>
   (\<forall>k<55. \<bar>height r ! (490 + k) - ((real k + 0.5) * 0.18 + 20.2)\<bar> \<le> 1 / 10 ^ 13) \<and>
   sorted_wrt (<) (height r) \<and>
   \<bar>height r ! 0 - (- 0.485)\<bar> \<le> 1 / 10 ^ 13 \<and> \<bar>height r ! 289 - 8.185\<bar> \<le> 1 / 10 ^ 13 \<and>
   \<bar>height r ! 290 - 8.23\<bar> \<le> 1 / 10 ^ 13 \<and> \<bar>height r ! 489 - 20.17\<bar> \<le> 1 / 10 ^ 13 \<and>
   \<bar>height r ! 490 - 20.29\<bar> \<le> 1 / 10 ^ 13 \<and> \<bar>height r ! 544 - 30.01\<bar> \<le> 1 / 10 ^ 13"
proof -
  have "\<bar>height r ! 0 - (- 0.485)\<bar> \<le> 1 / 10 ^ 13" "\<bar>height r ! 289 - 8.185\<bar> \<le> 1 / 10 ^ 13"
    using height_nth1[of 0 r] height_nth1[of 289 r] by simp_all
  moreover have "\<bar>height r ! 290 - 8.23\<bar> \<le> 1 / 10 ^ 13" "\<bar>height r ! 489 - 20.17\<bar> \<le> 1 / 10 ^ 13"
    using height_nth2[of 0 r] height_nth2[of 199 r] by simp_all
  moreover have "\<bar>height r ! 490 - 20.29\<bar> \<le> 1 / 10 ^ 13" "\<bar>height r ! 544 - 30.01\<bar> \<le> 1 / 10 ^ 13"
    using height_nth3[of 0 r] height_nth3[of 54 r] by simp_all
  ultimately show ?thesis
    using height_length[of r] height_sorted[of r] height_nth1[of _ r] height_nth2[of _ r]
      height_nth3[of _ r]
    by blast
qed

theorem height_closed_form_witness:
  "(100::nat) < 290 \<and> \<bar>height (opened example_file) ! 100 - 2.515\<bar> \<le> 1 / 10 ^ 13 \<and>
   (10::nat) < 200 \<and> \<bar>height (opened example_file) ! 300 - 8.83\<bar> \<le> 1 / 10 ^ 13 \<and>
   (5::nat) < 55 \<and> \<bar>height (opened example_file) ! 495 - 21.19\<bar> \<le> 1 / 10 ^ 13 \<and>
   length (height (opened example_file)) = 545"
proof -
  have a: "\<forall>i<290. \<bar>height (opened example_file) ! i - ((real i + 0.5) * 0.03 - 0.5)\<bar> \<le> 1 / 10 ^ 13"
    and b: "\<forall>j<200. \<bar>height (opened example_file) ! (290 + j) - ((real j + 0.5) * 0.06 + 8.2)\<bar>
              \<le> 1 / 10 ^ 13"
    and c: "\<forall>k<55. \<bar>height (opened example_file) ! (490 + k) - ((real k + 0.5) * 0.18 + 20.2)\<bar>
              \<le> 1 / 10 ^ 13"
    and l: "length (height (opened example_file)) = 545"
    using height_closed_form[of "opened example_file"] by blast+
  have "\<bar>height (opened example_file) ! 100 - 2.515\<bar> \<le> 1 / 10 ^ 13"
    using a[rule_format, of 100] by simp
  moreover have "\<bar>height (opened example_file) ! 300 - 8.83\<bar> \<le> 1 / 10 ^ 13"
    using b[rule_format, of 10] by simp
  moreover have "\<bar>height (opened example_file) ! 495 - 21.19\<bar> \<le> 1 / 10 ^ 13"
    using c[rule_format, of 5] by simp
  ultimately show ?thesis
    using l by simp
qed

text \<open>
  The last value is the double 30.009999999999998, which is neither 30.11 nor the double
  nearest to it: \<open>(54 + 0.5) * 0.18 + 20.2 = 30.01\<close>. And the values are not the exact
  decimals: the value at index 290 is the double 8.229999999999999, not the double nearest
  to 8.23.
\<close>

theorem height_boundary_counterexample:
  "height (opened example_file) ! 544 = 4223532025543393 / 140737488355328 \<and>
   height (opened example_file) ! 544 \<noteq> 30.11 \<and>
   height (opened example_file) ! 544 \<noteq> double 30.11 \<and>
   height (opened example_file) ! 290 = 4633078116657397 / 562949953421312 \<and>
   height (opened example_file) ! 290 \<noteq> 8.23 \<and>
   height (opened example_file) ! 290 \<noteq> double 8.23"
proof -
  have "double 8.23 = 2316539058328699 / 281474976710656"
    using round_double_eval[of 3 "8.23"]
    by (simp add: double_def round_half_even_def power_int_minus)
  moreover have "double 30.11 = 2118802887189463 / 70368744177664"
    using round_double_eval[of 4 "30.11"]
    by (simp add: double_def round_half_even_def power_int_minus)
  ultimately show ?thesis
    by (simp add: height_290 height_544)
qed

text \<open>
  Claim C10. Reading \<open>height\<close> does not depend on the handle: any two readers, with
  whatever file contents and also after \<open>close\<close>, give the same 545 values, and the
  access raises nothing.
\<close>

theorem height_ignores_the_handle:
  "getattr r1 Height = getattr r2 Height \<and>
   getattr (close r1) Height = getattr r2 Height \<and>
   (\<exists>h. getattr r1 Height = Inr (Floats h) \<and> length h = 545)"
  using height_length[of r1] by (simp add: height_def)

text \<open>By contrast, a property that selects a dataset fails once the handle is ended.\<close>

lemma lon_after_close: "getattr (close r) Lon = Inl ReadError"
  by (simp add: lon_def select_def close_def)

subsection \<open>Time decoding\<close>

lemma str_nat_small: "n < 10 \<Longrightarrow> str_nat n = [digit_char n]"
  by (subst str_nat.simps) simp

lemma str_nat_big: "10 \<le> n \<Longrightarrow> str_nat n = str_nat (n div 10) @ [digit_char (n mod 10)]"
  by (subst str_nat.simps) simp

lemma length_str_nat_le: "0 < k \<Longrightarrow> n < 10 ^ k \<Longrightarrow> length (str_nat n) \<le> k"
proof (induction k arbitrary: n)
  case 0
  then show ?case by simp
next
  case (Suc k)
  show ?case
  proof (cases "n < 10")
    case True
    then show ?thesis by (simp add: str_nat_small)
  next
    case False
    then have big: "10 \<le> n" by simp
    have k: "0 < k"
    proof (rule ccontr)
      assume "\<not> 0 < k"
      then have "k = 0" by simp
      with Suc.prems big show False by simp
    qed
    have "n div 10 < 10 ^ k"
      using Suc.prems(2) by (simp add: less_mult_imp_div_less mult.commute)
    then have "length (str_nat (n div 10)) \<le> k"
      using Suc.IH k by blast
    then show ?thesis
      by (simp add: str_nat_big[OF big])
  qed
qed

lemma length_str_nat_gt: "10 ^ k \<le> n \<Longrightarrow> k < length (str_nat n)"
proof (induction k arbitrary: n)
  case 0
  show ?case
    by (cases "n < 10") (simp_all add: str_nat_small str_nat_big)
next
  case (Suc k)
  have "(10::nat) \<le> 10 ^ Suc k" by simp
  with Suc.prems have big: "10 \<le> n" by linarith
  have "10 ^ k \<le> n div 10"
    using Suc.prems by (simp add: less_eq_div_iff_mult_less_eq mult.commute)
  then have "k < length (str_nat (n div 10))"
    by (rule Suc.IH)
  then show ?case
    by (simp add: str_nat_big[OF big])
qed

lemma length_str_nat_8: "length (str_nat n) = 8 \<longleftrightarrow> 10000000 \<le> n \<and> n < 100000000"
proof -
  have a: "length (str_nat n) \<le> 7" if "n < 10000000"
    using length_str_nat_le[of 7 n] that by simp
  have b: "8 < length (str_nat n)" if "100000000 \<le> n"
    using length_str_nat_gt[of 8 n] that by simp
  have c: "length (str_nat n) \<le> 8" if "n < 100000000"
    using length_str_nat_le[of 8 n] that by simp
  have d: "7 < length (str_nat n)" if "10000000 \<le> n"
    using length_str_nat_gt[of 7 n] that by simp
  show ?thesis
  proof
    assume len: "length (str_nat n) = 8"
    have "\<not> n < 10000000" using a len by fastforce
    moreover have "\<not> 100000000 \<le> n" using b len by fastforce
    ultimately show "10000000 \<le> n \<and> n < 100000000" by simp
  next
    assume "10000000 \<le> n \<and> n < 100000000"
    then have "length (str_nat n) \<le> 8" "7 < length (str_nat n)"
      using c d by simp_all
    then show "length (str_nat n) = 8" by linarith
  qed
qed

lemma digit_cases: "d < 10 \<Longrightarrow> d = 0 \<or> d = 1 \<or> d = 2 \<or> d = 3 \<or> d = 4 \<or> d = 5 \<or> d = 6 \<or> d = 7 \<or> d = 8 \<or> d = (9::nat)"
  by arith

lemma digit_val_digit_char: "d < 10 \<Longrightarrow> digit_val (digit_char d) = d"
  using digit_cases[of d] by (auto simp add: digit_val_def digit_char_def)

lemma is_digit_digit_char: "d < 10 \<Longrightarrow> is_digit (digit_char d)"
  using digit_cases[of d] by (auto simp add: is_digit_def digit_char_def)

lemma digits_str_nat: "list_all is_digit (str_nat n)"
proof (induction n rule: str_nat.induct)
  case (1 n)
  show ?case
  proof (cases "n < 10")
    case True
    then show ?thesis by (simp add: str_nat_small is_digit_digit_char)
  next
    case False
    then show ?thesis
      using 1 by (simp add: str_nat_big is_digit_digit_char)
  qed
qed

lemma str_nat_8:
  assumes "10000000 \<le> n" "n < 100000000"
  shows "str_nat n = [digit_char (n div 10000000), digit_char (n div 1000000 mod 10),
           digit_char (n div 100000 mod 10), digit_char (n div 10000 mod 10),
           digit_char (n div 1000 mod 10), digit_char (n div 100 mod 10),
           digit_char (n div 10 mod 10), digit_char (n mod 10)]"
proof -
  have d: "\<And>a b. n div a div b = n div (a * b)"
    by (simp add: div_mult2_eq)
  have 0: "str_nat n = str_nat (n div 10) @ [digit_char (n mod 10)]"
    using assms by (intro str_nat_big) simp
  have 1: "str_nat (n div 10) = str_nat (n div 100) @ [digit_char (n div 10 mod 10)]"
    using assms str_nat_big[of "n div 10"] by (simp add: d)
  have 2: "str_nat (n div 100) = str_nat (n div 1000) @ [digit_char (n div 100 mod 10)]"
    using assms str_nat_big[of "n div 100"] by (simp add: d)
  have 3: "str_nat (n div 1000) = str_nat (n div 10000) @ [digit_char (n div 1000 mod 10)]"
    using assms str_nat_big[of "n div 1000"] by (simp add: d)
  have 4: "str_nat (n div 10000) = str_nat (n div 100000) @ [digit_char (n div 10000 mod 10)]"
    using assms str_nat_big[of "n div 10000"] by (simp add: d)
  have 5: "str_nat (n div 100000) = str_nat (n div 1000000) @ [digit_char (n div 100000 mod 10)]"
    using assms str_nat_big[of "n div 100000"] by (simp add: d)
  have 6: "str_nat (n div 1000000) = str_nat (n div 10000000) @ [digit_char (n div 1000000 mod 10)]"
    using assms str_nat_big[of "n div 1000000"] by (simp add: d)
  have 7: "str_nat (n div 10000000) = [digit_char (n div 10000000)]"
    using assms by (intro str_nat_small) simp
  show ?thesis
    unfolding 0 1 2 3 4 5 6 7 by simp
qed

lemma mod_100_digits: "(m::nat) mod 100 = 10 * (m div 10 mod 10) + m mod 10"
  using mod_mult2_eq[of m 10 10] by simp

lemma to_datetime_str_nat:
  assumes "10000000 \<le> n" "n < 100000000"
  shows "to_datetime (str_nat n) =
     (if valid_date (n div 10000) (n div 100 mod 100) (n mod 100)
      then Inr (Date (n div 10000) (n div 100 mod 100) (n mod 100)) else Inl DecodeError)"
proof -
  have d: "\<And>a b. n div a div b = n div (a * b)"
    by (simp add: div_mult2_eq)
  have lt: "n div 10000000 < 10"
    using assms by simp
  have len: "length (str_nat n) = 8"
    using assms by (simp add: length_str_nat_8)
  have y0: "n div 10000 = 10 * (n div 100000) + n div 10000 mod 10"
    using div_mult_mod_eq[of "n div 10000" 10] by (simp add: d)
  have y1: "n div 100000 = 10 * (n div 1000000) + n div 100000 mod 10"
    using div_mult_mod_eq[of "n div 100000" 10] by (simp add: d)
  have y2: "n div 1000000 = 10 * (n div 10000000) + n div 1000000 mod 10"
    using div_mult_mod_eq[of "n div 1000000" 10] by (simp add: d)
  have y: "int_of_digits (take 4 (str_nat n)) = n div 10000"
    using y0 y1 y2 lt
    by (simp add: str_nat_8[OF assms] int_of_digits_def digit_val_digit_char)
  have m: "int_of_digits (take 2 (drop 4 (str_nat n))) = n div 100 mod 100"
    using mod_100_digits[of "n div 100"]
    by (simp add: str_nat_8[OF assms] int_of_digits_def digit_val_digit_char d)
  have dd: "int_of_digits (drop 6 (str_nat n)) = n mod 100"
    using mod_100_digits[of n]
    by (simp add: str_nat_8[OF assms] int_of_digits_def digit_val_digit_char)
  show ?thesis
    unfolding to_datetime_def Let_def y m dd using len digits_str_nat[of n] by simp
qed

lemma to_datetime_not_8: "length s \<noteq> 8 \<Longrightarrow> to_datetime s = Inl DecodeError"
  by (simp add: to_datetime_def)

lemma to_datetime_minus: "to_datetime (CHR ''-'' # s) = Inl DecodeError"
  by (simp add: to_datetime_def is_digit_def)

lemma time_elem:
  "to_datetime (astype_str (astype_int (fadd v 20000000))) =
     (if spec_resolves v then Inr (date_of (spec_timestamp v)) else Inl DecodeError)"
proof -
  define x where "x = fadd v 20000000"
  define k where "k = \<lfloor>x\<rfloor>"
  have res: "spec_resolves v \<longleftrightarrow> 10000000 \<le> k \<and> k \<le> 99999999 \<and>
      valid_date (nat (k div 10000)) (nat (k div 100 mod 100)) (nat (k mod 100))"
    unfolding spec_resolves_def Let_def x_def[symmetric] k_def[symmetric] by (rule refl)
  have ts: "date_of (spec_timestamp v) =
      Date (nat (k div 10000)) (nat (k div 100 mod 100)) (nat (k mod 100))"
    unfolding spec_timestamp_def Let_def x_def[symmetric] k_def[symmetric] timestamp.sel by (rule refl)
  have "to_datetime (astype_str (astype_int x)) =
     (if spec_resolves v then Inr (date_of (spec_timestamp v)) else Inl DecodeError)"
  proof (cases "0 \<le> x")
    case True
    have k0: "0 \<le> k" using True by (simp add: k_def)
    have s: "astype_str (astype_int x) = str_nat (nat k)"
      using True k0 by (simp add: astype_int_def astype_str_def k_def)
    show ?thesis
    proof (cases "10000000 \<le> k \<and> k \<le> 99999999")
      case True
      then have r: "10000000 \<le> nat k" "nat k < 100000000" by auto
      have c: "nat (k div 10000) = nat k div 10000" "nat (k div 100 mod 100) = nat k div 100 mod 100"
        "nat (k mod 100) = nat k mod 100"
        using k0 by (simp_all add: nat_div_distrib nat_mod_distrib)
      show ?thesis
        unfolding s to_datetime_str_nat[OF r] res ts c using True by simp
    next
      case False
      then have "\<not> (10000000 \<le> nat k \<and> nat k < 100000000)" using k0 by auto
      then have "length (str_nat (nat k)) \<noteq> 8" by (simp add: length_str_nat_8)
      then show ?thesis
        unfolding s res using False by (auto simp add: to_datetime_not_8)
    qed
  next
    case False
    then have neg: "x < 0" by simp
    then have "k < 0" by (simp add: k_def)
    then have nr: "\<not> spec_resolves v"
      unfolding res by simp
    have "to_datetime (astype_str \<lceil>x\<rceil>) = Inl DecodeError"
    proof (cases "\<lceil>x\<rceil> < 0")
      case True
      then show ?thesis by (simp add: astype_str_def to_datetime_minus)
    next
      case False
      moreover have "\<lceil>x\<rceil> \<le> 0" using neg by (simp add: ceiling_le_iff)
      ultimately have "\<lceil>x\<rceil> = 0" by linarith
      then have "length (astype_str \<lceil>x\<rceil>) \<noteq> 8"
        by (simp add: astype_str_def length_str_nat_8)
      then show ?thesis by (rule to_datetime_not_8)
    qed
    then show ?thesis
      using neg nr by (simp add: astype_int_def)
  qed
  then show ?thesis
    unfolding x_def .
qed

lemma sequence_sum_if:
  "sequence_sum (map (\<lambda>v. if P v then Inr (g v) else Inl e) vs) =
     (if list_all P vs then Inr (map g vs) else Inl e)"
  by (induction vs) simp_all

lemma map2_same: "map2 f (map g xs) (map h xs) = map (\<lambda>x. f (g x) (h x)) xs"
  by (induction xs) simp_all

lemma mod1_encoded:
  assumes "encoded v"
  shows "mod1 v = frac v"
proof -
  have m: "v - of_int (astype_int v) = frac v"
    using assms by (simp add: encoded_def astype_int_def frac_def)
  have "\<not> frac v < 0"
    using frac_ge_0[of v] by linarith
  then show ?thesis
    unfolding mod1_def Let_def m by simp
qed

lemma spec_timestamp_split:
  "encoded v \<Longrightarrow> Timestamp (date_of (spec_timestamp v)) (mod1 v) = spec_timestamp v"
  by (simp add: mod1_encoded) (simp add: spec_timestamp_def Let_def)

lemma time_open:
  assumes "end_calls (sd r) = 0" "Profile_UTC_Time (contents (sd r)) = Some a"
    and "0 < nrows a" "0 < ncols a"
    and "list_all encoded (map (\<lambda>row. row ! 0) (rows a))"
  shows "time r =
     (if list_all spec_resolves (map (\<lambda>row. row ! 0) (rows a))
      then Inr (map spec_timestamp (map (\<lambda>row. row ! 0) (rows a))) else Inl DecodeError)"
proof -
  let ?vs = "map (\<lambda>row. row ! 0) (rows a)"
  have sel: "select (sd r) Profile_UTC_Time = Inr a"
    using assms by (simp add: select_def)
  have c: "col0 a = Inr ?vs"
    using assms by (simp add: col0_def)
  have s: "sequence_sum (map (\<lambda>v. to_datetime (astype_str (astype_int (fadd v 20000000)))) ?vs) =
      (if list_all spec_resolves ?vs then Inr (map (\<lambda>v. date_of (spec_timestamp v)) ?vs)
       else Inl DecodeError)"
    unfolding time_elem by (rule sequence_sum_if)
  have "map (\<lambda>v. Timestamp (date_of (spec_timestamp v)) (mod1 v)) ?vs = map spec_timestamp ?vs"
    using assms(5) by (intro map_cong refl spec_timestamp_split) (auto simp add: list_all_iff)
  then have m: "map2 Timestamp (map (\<lambda>v. date_of (spec_timestamp v)) ?vs) (map mod1 ?vs) =
      map spec_timestamp ?vs"
    unfolding map2_same .
  have t: "time r =
      (case sequence_sum (map (\<lambda>v. to_datetime (astype_str (astype_int (fadd v 20000000)))) ?vs) of
         Inl e \<Rightarrow> Inl e
       | Inr yymmdd \<Rightarrow> Inr (map2 Timestamp yymmdd (map mod1 ?vs)))"
    by (simp only: time_def sel c sum.case Let_def)
  show ?thesis
  proof (cases "list_all spec_resolves ?vs")
    case True
    then show ?thesis
      by (simp only: t s m if_True sum.case)
  next
    case False
    then show ?thesis
      by (simp only: t s if_False sum.case)
  qed
qed

text \<open>
  For a value of the encoding the sum with 2e7 lies between \<open>2 ^ 24\<close> and \<open>2 ^ 25\<close>,
  where doubles are the multiples of \<open>2 ^ -28\<close>: the float64 sum is the exact sum or
  rounds up to the next integer, and its floor is the integer part of the value plus 2e7, or
  one more.
\<close>

lemma round_double_24:
  assumes "16777216 \<le> s" "s < 33554432"
  shows "round_double s = of_int (round_half_even (s * 2 ^ 28)) / 2 ^ 28"
  using round_double_eval[of 24 s] assms by (simp add: power_int_minus field_simps)










lemma double_before_midnight: "double 210115.9999999999 = 7219530786930685 / 34359738368"
  using round_double_eval[of 17 "210115.9999999999"]
  by (simp add: double_def round_half_even_def power_int_minus)


lemma before_midnight_sum: "fadd (7219530786930685 / 34359738368) 20000000 = 20210116"
  unfolding fadd_def
  using round_double_24[of "7219530786930685 / 34359738368 + 20000000"]
  by (simp add: round_half_even_def)




lemma before_midnight_timestamp:
  "spec_resolves (double 210115.9999999999) \<and>
   spec_timestamp (double 210115.9999999999) =
     Timestamp (Date 2021 1 16) (34359738365 / 34359738368)"
  unfolding spec_resolves_def spec_timestamp_def double_before_midnight before_midnight_sum
  by (simp add: frac_def valid_date_def days_in_month_def)



text \<open>
  The sum is a float64 sum: in the last 0.16 ms of a day it rounds up to the next integer,
  and the date that \<open>time\<close> reads from it is the next day.
\<close>

lemma time_rounds_up_before_midnight:
  "time (opened (time_file (NDArray 1 [[double 210115.9999999999]]))) =
     Inr [Timestamp (Date 2021 1 16) (34359738365 / 34359738368)]"
proof -
  have e: "encoded (double 210115.9999999999)"
    unfolding double_before_midnight by (simp add: encoded_def)
  have h: "end_calls (sd (opened (time_file (NDArray 1 [[double 210115.9999999999]])))) = 0"
    "Profile_UTC_Time (contents (sd (opened (time_file (NDArray 1 [[double 210115.9999999999]]))))) =
       Some (NDArray 1 [[double 210115.9999999999]])"
    "0 < nrows (NDArray 1 [[double 210115.9999999999]])"
    "0 < ncols (NDArray 1 [[double 210115.9999999999]])"
    "list_all encoded (map (\<lambda>row. row ! 0) (rows (NDArray 1 [[double 210115.9999999999]])))"
    using e by (simp_all add: opened_def time_file_def nrows_def)
  show ?thesis
    using time_open[OF h] before_midnight_timestamp by simp
qed

subsection \<open>Lengths\<close>








subsection \<open>Scoped acquisition\<close>

lemma accesses_reader: "snd (accesses ps r) = r"
  by (induction ps) (auto split: sum.splits prod.splits)

lemma with_reader_body:
  assumes "fs filepath = Some f"
  shows "with_reader fs filepath body =
           (fst (body (opened f)), Some (close (snd (body (opened f)))))"
  using assms
  by (simp add: with_reader_def init_def enter_def exit_def opened_def Let_def split: prod.splits)

text \<open>
  Claim C9. Under \<open>with VfmReader(filepath) as r\<close>, whatever properties the block
  reads and whether it returns or raises, the outcome of the block is the outcome of the
  statement and \<open>sd.end()\<close> has been called exactly once when the statement is left.
\<close>

theorem with_reader_releases_once:
  assumes "fs filepath = Some f"
  shows "\<exists>r'. with_reader fs filepath (accesses ps) = (fst (accesses ps (opened f)), Some r') \<and>
              end_calls (sd r') = 1 \<and> contents (sd r') = f"
proof -
  have "with_reader fs filepath (accesses ps) =
      (fst (accesses ps (opened f)), Some (close (opened f)))"
    using with_reader_body[of fs filepath f "accesses ps"] assms by (simp add: accesses_reader)
  moreover have "end_calls (sd (close (opened f))) = 1" "contents (sd (close (opened f))) = f"
    by (simp_all add: close_def opened_def)
  ultimately show ?thesis by blast
qed

theorem with_reader_releases_once_witness:
  "example_fs ''vfm.hdf'' = Some (flags_only narrow_flags) \<and>
   fst (accesses [Height, Lon, Fcf] (opened (flags_only narrow_flags))) = Inl ReadError \<and>
   (\<exists>r'. with_reader example_fs ''vfm.hdf'' (accesses [Height, Lon, Fcf]) = (Inl ReadError, Some r') \<and>
         end_calls (sd r') = 1 \<and> contents (sd r') = flags_only narrow_flags)"
proof -
  have h: "example_fs ''vfm.hdf'' = Some (flags_only narrow_flags)"
    by (simp add: example_fs_def)
  have e: "fst (accesses [Height, Lon, Fcf] (opened (flags_only narrow_flags))) = Inl ReadError"
    by (simp add: lon_def select_def opened_def flags_only_def)
  show ?thesis
    using with_reader_releases_once[of example_fs "''vfm.hdf''" "flags_only narrow_flags" "[Height, Lon, Fcf]"] h e by simp
qed

end
